theory Spec2Isabelle
  imports Main
begin

section \<open>Strings of the transcript\<close>

text \<open>
  A transcript is a JavaScript string. It is modelled as a \<open>string\<close> whose characters are
  the code units below 256 (the Latin-1 repertoire), one \<open>char\<close> per code unit. Within that
  repertoire the white space of \<^verbatim>\<open>\s\<close> and of \<^verbatim>\<open>trim()\<close> is TAB, LF, VT, FF, CR, SPACE and
  NO-BREAK SPACE.
\<close>

definition is_space :: "char \<Rightarrow> bool" where
  "is_space c \<longleftrightarrow>
     c \<in> set [CHR 0x09, CHR 0x0A, CHR 0x0B, CHR 0x0C, CHR 0x0D, CHR 0x20, CHR 0xA0]"

text \<open>
  \<^verbatim>\<open>String.prototype.toLowerCase\<close> on one code unit: A-Z and the accented capitals
  0xC0-0xDE (without the multiplication sign 0xD7) move up by 32.
\<close>

definition lower_char :: "char \<Rightarrow> char" where
  "lower_char c =
     (let n = (of_char c :: nat)
      in if (65 \<le> n \<and> n \<le> 90) \<or> (192 \<le> n \<and> n \<le> 222 \<and> n \<noteq> 215)
         then char_of (n + 32) else c)"

definition toLowerCase :: "string \<Rightarrow> string" where
  "toLowerCase s = map lower_char s"

text \<open>
  The canonical form that a regular expression with the \<^verbatim>\<open>i\<close> flag (and no \<^verbatim>\<open>u\<close> flag)
  compares: the upper-case code unit. The two Latin-1 letters whose capital lies outside
  Latin-1 (0xB5, 0xFF) and the sharp s (whose capital is two units) are equal only to
  themselves, so they stay as they are.
\<close>

definition canonicalize :: "char \<Rightarrow> char" where
  "canonicalize c =
     (let n = (of_char c :: nat)
      in if (97 \<le> n \<and> n \<le> 122) \<or> (224 \<le> n \<and> n \<le> 254 \<and> n \<noteq> 247)
         then char_of (n - 32) else c)"

definition char_eq :: "bool \<Rightarrow> char \<Rightarrow> char \<Rightarrow> bool" where
  "char_eq ic p c = (if ic then canonicalize p = canonicalize c else p = c)"

definition in_ranges :: "(char \<times> char) list \<Rightarrow> char \<Rightarrow> bool" where
  "in_ranges rs c =
     list_ex (\<lambda>r. (of_char (fst r) :: nat) \<le> of_char c \<and> (of_char c :: nat) \<le> of_char (snd r)) rs"

text \<open>
  A character class under the \<^verbatim>\<open>i\<close> flag holds \<open>c\<close> when some member has the canonical form
  of \<open>c\<close>; the characters with the canonical form of \<open>c\<close> are \<open>c\<close>, its capital and its
  small letter.
\<close>

definition class_mem :: "bool \<Rightarrow> (char \<times> char) list \<Rightarrow> char \<Rightarrow> bool" where
  "class_mem ic rs c =
     (in_ranges rs c \<or> (ic \<and> (in_ranges rs (canonicalize c) \<or> in_ranges rs (lower_char c))))"

definition trim :: "string \<Rightarrow> string" where
  "trim s = rev (dropWhile is_space (rev (dropWhile is_space s)))"

section \<open>Regular expressions\<close>

text \<open>
  The patterns of the source, as data. \<open>Class\<close> is a bracket expression given by its
  ranges (a single character \<open>c\<close> is the range \<open>(c, c)\<close>), \<open>Space\<close> is \<^verbatim>\<open>\s\<close>, \<open>Group n\<close>
  is the \<open>n\<close>-th capturing parenthesis.
\<close>

datatype regex =
    Lit string
  | Class "(char \<times> char) list"
  | Space
  | Seq regex regex
  | Alt regex regex
  | Opt regex
  | Star regex
  | Plus regex
  | Group nat regex

type_synonym mstate = "string \<times> (nat \<times> string) list"

fun weight :: "regex \<Rightarrow> nat" where
  "weight (Lit p) = 1"
| "weight (Class rs) = 1"
| "weight Space = 1"
| "weight (Seq r1 r2) = Suc (weight r1 + weight r2)"
| "weight (Alt r1 r2) = Suc (weight r1 + weight r2)"
| "weight (Opt r) = Suc (weight r)"
| "weight (Star r) = Suc (weight r)"
| "weight (Plus r) = Suc (Suc (weight r))"
| "weight (Group n r) = Suc (weight r)"

text \<open>
  The backtracking matcher of ECMAScript as a list of successes: \<open>rmatch ic r (s, caps)\<close>
  lists, in the order in which backtracking visits them, the ways in which \<open>r\<close> matches a
  prefix of \<open>s\<close>; each is the input left over and the captures so far. An alternative
  tries its left side first, a quantifier is greedy, and an iteration of a quantifier that
  consumes nothing is rejected.
\<close>

function rmatch :: "bool \<Rightarrow> regex \<Rightarrow> mstate \<Rightarrow> mstate list" where
  "rmatch ic (Lit p) (s, caps) =
     (if length p \<le> length s \<and> list_all2 (char_eq ic) p (take (length p) s)
      then [(drop (length p) s, caps)] else [])"
| "rmatch ic (Class rs) (s, caps) =
     (case s of [] \<Rightarrow> [] | c # s' \<Rightarrow> if class_mem ic rs c then [(s', caps)] else [])"
| "rmatch ic Space (s, caps) =
     (case s of [] \<Rightarrow> [] | c # s' \<Rightarrow> if is_space c then [(s', caps)] else [])"
| "rmatch ic (Seq r1 r2) m = concat (map (rmatch ic r2) (rmatch ic r1 m))"
| "rmatch ic (Alt r1 r2) m = rmatch ic r1 m @ rmatch ic r2 m"
| "rmatch ic (Opt r) (s, caps) =
     filter (\<lambda>m'. length (fst m') < length s) (rmatch ic r (s, caps)) @ [(s, caps)]"
| "rmatch ic (Star r) (s, caps) =
     concat (map (rmatch ic (Star r))
        (filter (\<lambda>m'. length (fst m') < length s) (rmatch ic r (s, caps)))) @ [(s, caps)]"
| "rmatch ic (Plus r) m = concat (map (rmatch ic (Star r)) (rmatch ic r m))"
| "rmatch ic (Group n r) (s, caps) =
     map (\<lambda>m'. (fst m', (n, take (length s - length (fst m')) s) # snd m'))
       (rmatch ic r (s, caps))"
  by pat_completeness auto
termination
  by (relation "inv_image (measure weight <*lex*> measure length) (\<lambda>(ic, r, s, caps). (r, s))")
     auto

text \<open>The text of group \<open>n\<close> in a match (the latest capture of the group).\<close>

definition group_text :: "nat \<Rightarrow> mstate \<Rightarrow> string" where
  "group_text n m = (case map_of (snd m) n of Some x \<Rightarrow> x | None \<Rightarrow> [])"

text \<open>
  \<^verbatim>\<open>s.match(/r/)\<close> and \<^verbatim>\<open>/r/.test(s)\<close>: the leftmost start at which the pattern matches,
  with the first way the backtracking finds there.
\<close>

fun rx_exec :: "bool \<Rightarrow> regex \<Rightarrow> string \<Rightarrow> mstate option" where
  "rx_exec ic r [] = (case rmatch ic r ([], []) of [] \<Rightarrow> None | m # _ \<Rightarrow> Some m)"
| "rx_exec ic r (c # s) =
     (case rmatch ic r (c # s, []) of [] \<Rightarrow> rx_exec ic r s | m # _ \<Rightarrow> Some m)"

definition rx_test :: "bool \<Rightarrow> regex \<Rightarrow> string \<Rightarrow> bool" where
  "rx_test ic r s = (rx_exec ic r s \<noteq> None)"

text \<open>
  A pattern written \<^verbatim>\<open>/^r$/\<close>: it can only start at the beginning, and the first way of
  matching \<open>r\<close> that reaches the end of the input is the match.
\<close>

definition rx_exec_anchored :: "bool \<Rightarrow> regex \<Rightarrow> string \<Rightarrow> mstate option" where
  "rx_exec_anchored ic r s = find (\<lambda>m. fst m = []) (rmatch ic r (s, []))"

text \<open>
  \<^verbatim>\<open>s.replace(/r/g, rep)\<close>: matches are looked for from left to right, each next one after
  the end of the previous one; after an empty match the search moves one character on.
\<close>

function replace_all :: "bool \<Rightarrow> regex \<Rightarrow> string \<Rightarrow> string \<Rightarrow> string" where
  "replace_all ic r rep [] = (case rmatch ic r ([], []) of [] \<Rightarrow> [] | m # _ \<Rightarrow> rep)"
| "replace_all ic r rep (c # s) =
     (case rmatch ic r (c # s, []) of
        [] \<Rightarrow> c # replace_all ic r rep s
      | m # _ \<Rightarrow>
          if length (fst m) < length (c # s) then rep @ replace_all ic r rep (fst m)
          else rep @ c # replace_all ic r rep s)"
  by pat_completeness auto
termination
  by (relation "measure (\<lambda>(ic, r, rep, s). length s)") auto

text \<open>
  \<^verbatim>\<open>s.split(/\s+/)\<close>: the pieces between the maximal runs of white space; a run at the
  start or at the end leaves an empty piece there, and the empty string gives one empty
  piece. \<open>cur\<close> is the piece being read, reversed.
\<close>

function split_spaces :: "string \<Rightarrow> string \<Rightarrow> string list" where
  "split_spaces cur [] = [rev cur]"
| "split_spaces cur (c # s) =
     (if is_space c then rev cur # split_spaces [] (dropWhile is_space s)
      else split_spaces (c # cur) s)"
  by pat_completeness auto
termination
  by (relation "measure (\<lambda>(cur, s). length s)") (auto simp: length_dropWhile_le le_imp_less_Suc)

fun indexOf :: "'a \<Rightarrow> 'a list \<Rightarrow> nat option" where
  "indexOf x [] = None"
| "indexOf x (y # ys) =
     (if x = y then Some 0 else (case indexOf x ys of None \<Rightarrow> None | Some i \<Rightarrow> Some (Suc i)))"

section \<open>Property lookup on an object literal\<close>

text \<open>
  \<^verbatim>\<open>fileMap\<close> and \<^verbatim>\<open>rankMap\<close> are object literals, so \<^verbatim>\<open>rankMap[key]\<close> finds the
  literal's own properties first and then the properties every object inherits from
  \<^verbatim>\<open>Object.prototype\<close>: its methods, and the accessor \<^verbatim>\<open>__proto__\<close>, which gives
  \<^verbatim>\<open>Object.prototype\<close> itself.
\<close>

datatype jsval = JStr string | JFun string | JObjectPrototype

definition object_prototype :: "(string \<times> jsval) list" where
  "object_prototype =
     [(''constructor'', JFun ''Object''),
      (''hasOwnProperty'', JFun ''hasOwnProperty''),
      (''isPrototypeOf'', JFun ''isPrototypeOf''),
      (''propertyIsEnumerable'', JFun ''propertyIsEnumerable''),
      (''toLocaleString'', JFun ''toLocaleString''),
      (''toString'', JFun ''toString''),
      (''valueOf'', JFun ''valueOf''),
      (''__defineGetter__'', JFun ''__defineGetter__''),
      (''__defineSetter__'', JFun ''__defineSetter__''),
      (''__lookupGetter__'', JFun ''__lookupGetter__''),
      (''__lookupSetter__'', JFun ''__lookupSetter__''),
      (''__proto__'', JObjectPrototype)]"

definition get_property :: "(string \<times> string) list \<Rightarrow> string \<Rightarrow> jsval option" where
  "get_property own key =
     (case map_of own key of Some v \<Rightarrow> Some (JStr v) | None \<Rightarrow> map_of object_prototype key)"

fun truthy :: "jsval option \<Rightarrow> bool" where
  "truthy None = False"
| "truthy (Some (JStr s)) = (s \<noteq> [])"
| "truthy (Some (JFun n)) = True"
| "truthy (Some JObjectPrototype) = True"

text \<open>
  What a template literal writes for a value. A built-in function is written in the form
  that V8 and JavaScriptCore use; the standard fixes that it starts with \<^verbatim>\<open>function\<close>.
\<close>

fun to_text :: "jsval option \<Rightarrow> string" where
  "to_text None = ''undefined''"
| "to_text (Some (JStr s)) = s"
| "to_text (Some (JFun n)) = ''function '' @ n @ ''() { [native code] }''"
| "to_text (Some JObjectPrototype) = ''[object Object]''"

section \<open>The square normalizer\<close>

definition fileMap :: "(string \<times> string) list" where
  "fileMap =
     [(''a'', ''a''), (''b'', ''b''), (''c'', ''c''), (''d'', ''d''),
      (''e'', ''e''), (''f'', ''f''), (''g'', ''g''), (''h'', ''h'')]"

definition rankMap :: "(string \<times> string) list" where
  "rankMap =
     [(''one'', ''1''), (''two'', ''2''), (''three'', ''3''), (''four'', ''4''),
      (''for'', ''4''), (''five'', ''5''), (''six'', ''6''), (''seven'', ''7''),
      (''eight'', ''8'')]"

text \<open>\<^verbatim>\<open>/^[a-hA-H][1-8]$/\<close> and \<^verbatim>\<open>/^([a-hA-H])([1-8])$/\<close>\<close>

definition rx_square :: regex where
  "rx_square = Seq (Class [(CHR ''a'', CHR ''h''), (CHR ''A'', CHR ''H'')])
                   (Class [(CHR ''1'', CHR ''8'')])"

definition rx_square_groups :: regex where
  "rx_square_groups =
     Seq (Group 1 (Class [(CHR ''a'', CHR ''h''), (CHR ''A'', CHR ''H'')]))
         (Group 2 (Class [(CHR ''1'', CHR ''8'')]))"

text \<open>
  \<^verbatim>\<open>cleaned[0]\<close> of an empty string is \<^verbatim>\<open>undefined\<close>, which as a property key is the
  string \<^verbatim>\<open>"undefined"\<close>.
\<close>

definition normalizeSquare :: "string \<Rightarrow> string option" where
  "normalizeSquare input =
     (let cleaned = replace_all False (Plus Space) [] (trim input)
      in if rx_exec_anchored False rx_square cleaned \<noteq> None then Some (toLowerCase cleaned)
         else if rx_exec_anchored False rx_square_groups cleaned \<noteq> None
         then Some (toLowerCase cleaned)
         else
           let fileLetter = (case cleaned of [] \<Rightarrow> ''undefined'' | c # _ \<Rightarrow> [c]);
               rankWord = drop 1 cleaned;
               f = get_property fileMap fileLetter;
               r = get_property rankMap rankWord
           in if truthy f \<and> truthy r then Some (to_text f @ to_text r) else None)"

section \<open>The command parser\<close>

datatype side = Kingside | Queenside

datatype command = Move string string | NewGame | Undo | Castle side

text \<open>\<^verbatim>\<open>/to|two|too/g\<close>\<close>

definition rx_connector :: regex where
  "rx_connector = Alt (Lit ''to'') (Alt (Lit ''two'') (Lit ''too''))"

text \<open>\<^verbatim>\<open>/^([a-h][1-8])([a-h][1-8])([qrbn])?$/\<close>\<close>

definition rx_uci :: regex where
  "rx_uci =
     Seq (Group 1 (Seq (Class [(CHR ''a'', CHR ''h'')]) (Class [(CHR ''1'', CHR ''8'')])))
    (Seq (Group 2 (Seq (Class [(CHR ''a'', CHR ''h'')]) (Class [(CHR ''1'', CHR ''8'')])))
         (Opt (Group 3 (Class [(CHR ''q'', CHR ''q''), (CHR ''r'', CHR ''r''),
                               (CHR ''b'', CHR ''b''), (CHR ''n'', CHR ''n'')]))))"

text \<open>\<^verbatim>\<open>/new\s*game|reset/i\<close>, \<^verbatim>\<open>/undo|take\s*back/i\<close>, \<^verbatim>\<open>/castle|castling/i\<close>,
  \<^verbatim>\<open>/queen|long/i\<close>\<close>

definition rx_newgame :: regex where
  "rx_newgame = Alt (Seq (Lit ''new'') (Seq (Star Space) (Lit ''game''))) (Lit ''reset'')"

definition rx_undo :: regex where
  "rx_undo = Alt (Lit ''undo'') (Seq (Lit ''take'') (Seq (Star Space) (Lit ''back'')))"

definition rx_castle :: regex where
  "rx_castle = Alt (Lit ''castle'') (Lit ''castling'')"

definition rx_queen :: regex where
  "rx_queen = Alt (Lit ''queen'') (Lit ''long'')"

text \<open>\<^verbatim>\<open>/([a-hA-H]\s*[1-8])\s*(to|two|too)?\s*([a-hA-H]\s*[1-8])/i\<close>\<close>

definition rx_simpleMove :: regex where
  "rx_simpleMove =
     Seq (Group 1 (Seq (Class [(CHR ''a'', CHR ''h''), (CHR ''A'', CHR ''H'')])
                  (Seq (Star Space) (Class [(CHR ''1'', CHR ''8'')]))))
    (Seq (Star Space)
    (Seq (Opt (Group 2 (Alt (Lit ''to'') (Alt (Lit ''two'') (Lit ''too'')))))
    (Seq (Star Space)
         (Group 3 (Seq (Class [(CHR ''a'', CHR ''h''), (CHR ''A'', CHR ''H'')])
                  (Seq (Star Space) (Class [(CHR ''1'', CHR ''8'')])))))))"

text \<open>
  \<^verbatim>\<open>if (from && to)\<close>: both results are there and neither is the empty string.
\<close>

definition move_of :: "string option \<Rightarrow> string option \<Rightarrow> command option" where
  "move_of from to =
     (case (from, to) of
        (Some f, Some t) \<Rightarrow> if f \<noteq> [] \<and> t \<noteq> [] then Some (Move f t) else None
      | _ \<Rightarrow> None)"

text \<open>The "square to square" step of the parser (the match of \<^verbatim>\<open>simpleMove\<close>).\<close>

definition simple_move :: "string \<Rightarrow> command option" where
  "simple_move t =
     (case rx_exec True rx_simpleMove t of
        None \<Rightarrow> None
      | Some m \<Rightarrow> move_of (normalizeSquare (group_text 1 m)) (normalizeSquare (group_text 3 m)))"

text \<open>The "move word word" step of the parser (the tokens after \<^verbatim>\<open>move\<close>).\<close>

definition token_move :: "string \<Rightarrow> command option" where
  "token_move t =
     (let tokens = split_spaces [] t
      in case indexOf ''move'' tokens of
           None \<Rightarrow> None
         | Some idxMove \<Rightarrow>
             if length tokens \<ge> idxMove + 3
             then move_of (normalizeSquare (tokens ! (idxMove + 1)))
                          (normalizeSquare (tokens ! (idxMove + 2)))
             else None)"

definition parseVoiceCommand :: "string \<Rightarrow> command option" where
  "parseVoiceCommand text =
     (let t = trim text;
          clean = replace_all False (Plus Space) []
                    (replace_all False rx_connector [] (toLowerCase t))
      in case rx_exec_anchored False rx_uci clean of
           Some uciMatch \<Rightarrow> Some (Move (group_text 1 uciMatch) (group_text 2 uciMatch))
         | None \<Rightarrow>
             if rx_test True rx_newgame t then Some NewGame
             else if rx_test True rx_undo t then Some Undo
             else if rx_test True rx_castle t
             then (if rx_test True rx_queen t then Some (Castle Queenside)
                   else Some (Castle Kingside))
             else (case simple_move t of
                     Some c \<Rightarrow> Some c
                   | None \<Rightarrow> token_move t))"

section \<open>The listening session controller\<close>

datatype VoiceStatus = Idle | Ready | Listening | Processing | Error | Unsupported

text \<open>
  What the controller does to its surroundings, in the order in which it does it: a spoken
  notice, a call of one of the three callbacks of the game, a request to the recognizer.
  Console output is not part of the model.
\<close>

datatype effect =
    Speak string
  | OnMove string string
  | OnNewGame
  | OnUndo
  | RecognitionStart
  | RecognitionStop
  | RecognitionAbort

text \<open>
  The state that the component and its parent hold: the status and the last command (state
  of the parent, written through \<^verbatim>\<open>setStatus\<close> and \<^verbatim>\<open>setLastCommand\<close>), the flag
  \<^verbatim>\<open>isListeningActive\<close>, whether \<^verbatim>\<open>recognitionRef\<close> holds a recognizer, and the effects
  so far.
\<close>

record controller =
  status :: VoiceStatus
  isListeningActive :: bool
  hasRecognition :: bool
  lastCommand :: string
  effects :: "effect list"

definition emit :: "effect \<Rightarrow> controller \<Rightarrow> controller" where
  "emit e c = c\<lparr>effects := effects c @ [e]\<rparr>"

text \<open>
  The parent creates the status as \<^verbatim>\<open>"idle"\<close> and the last command as the empty string;
  the effect that runs once on mount checks that the platform has a recognizer.
\<close>

definition created :: controller where
  "created = \<lparr>status = Idle, isListeningActive = False, hasRecognition = False,
              lastCommand = [], effects = []\<rparr>"

definition mount :: "bool \<Rightarrow> controller" where
  "mount supported =
     (if \<not> supported then created\<lparr>status := Unsupported\<rparr>
      else emit (Speak ''Welcome to vocal chess. Start by making your move.'')
             (created\<lparr>hasRecognition := True, status := Ready\<rparr>))"

text \<open>The cleanup on unmount aborts the recognizer, if there is one.\<close>

definition unmount :: "controller \<Rightarrow> controller" where
  "unmount c = (if hasRecognition c then emit RecognitionAbort c else c)"

text \<open>
  \<^verbatim>\<open>handleToggle\<close>: nothing when unsupported; the stop branch only when the status is
  \<open>Listening\<close>; the start branch in every other status. A \<^verbatim>\<open>start()\<close> that throws
  because the recognizer is already started is caught, with the flag already set, so the
  state after the request is the same either way.
\<close>

definition handleToggle :: "controller \<Rightarrow> controller" where
  "handleToggle c =
     (if status c = Unsupported then c
      else if status c = Listening then
        (let c1 = c\<lparr>isListeningActive := False\<rparr>
         in if hasRecognition c1 then emit RecognitionStop c1 else c1)
      else
        (let c1 = c\<lparr>isListeningActive := True\<rparr>
         in if hasRecognition c1 then emit RecognitionStart c1 else c1))"

definition onstart :: "controller \<Rightarrow> controller" where
  "onstart c = c\<lparr>status := Listening\<rparr>"

definition onend :: "controller \<Rightarrow> controller" where
  "onend c = (if isListeningActive c then emit RecognitionStart c else c\<lparr>status := Ready\<rparr>)"

text \<open>
  The callbacks belong to the caller and may throw (the move callback of the game does, on
  an illegal move); \<open>returns e\<close> says that the call \<open>e\<close> comes back normally. The spoken
  confirmation follows the call, so a call that throws leaves it out.
\<close>

definition call_then_speak :: "(effect \<Rightarrow> bool) \<Rightarrow> effect \<Rightarrow> string \<Rightarrow> controller \<Rightarrow> controller" where
  "call_then_speak returns e notice c =
     (if returns e then emit (Speak notice) (emit e c) else emit e c)"

definition onresult :: "(effect \<Rightarrow> bool) \<Rightarrow> string \<Rightarrow> controller \<Rightarrow> controller" where
  "onresult returns transcript c =
     (let c1 = c\<lparr>lastCommand := transcript\<rparr>
      in case parseVoiceCommand transcript of
           None \<Rightarrow> emit (Speak ''Invalid format.'') c1
         | Some (Move from to) \<Rightarrow>
             call_then_speak returns (OnMove from to)
               (''Move '' @ from @ '' to '' @ to @ '' played.'') c1
         | Some NewGame \<Rightarrow> call_then_speak returns OnNewGame ''New game started.'' c1
         | Some Undo \<Rightarrow> call_then_speak returns OnUndo ''Move undone.'' c1
         | Some (Castle sd) \<Rightarrow> c1)"

definition onerror :: "string \<Rightarrow> controller \<Rightarrow> controller" where
  "onerror err c =
     (if err = ''no-speech'' then c\<lparr>status := Ready\<rparr>
      else emit (Speak ''An error occurred.'') (c\<lparr>status := Error\<rparr>))"

text \<open>The events of a session: the button, and the four callbacks of the recognizer.\<close>

datatype event = Toggle | OnStart | OnEnd | OnResult string | OnError string

fun handle :: "(effect \<Rightarrow> bool) \<Rightarrow> controller \<Rightarrow> event \<Rightarrow> controller" where
  "handle returns c Toggle = handleToggle c"
| "handle returns c OnStart = onstart c"
| "handle returns c OnEnd = onend c"
| "handle returns c (OnResult transcript) = onresult returns transcript c"
| "handle returns c (OnError err) = onerror err c"

definition run :: "(effect \<Rightarrow> bool) \<Rightarrow> controller \<Rightarrow> event list \<Rightarrow> controller" where
  "run returns c evs = foldl (handle returns) c evs"

fun is_game_call :: "effect \<Rightarrow> bool" where
  "is_game_call (OnMove from to) = True"
| "is_game_call OnNewGame = True"
| "is_game_call OnUndo = True"
| "is_game_call e = False"

fun is_speech :: "effect \<Rightarrow> bool" where
  "is_speech (Speak notice) = True"
| "is_speech e = False"

section \<open>Words used to state the properties of the parser\<close>

text \<open>
  The squares of the board in their canonical text: a file letter a-h and a rank digit 1-8.
\<close>

definition is_file :: "char \<Rightarrow> bool" where
  "is_file c \<longleftrightarrow> c \<in> set ''abcdefgh''"

definition is_rank :: "char \<Rightarrow> bool" where
  "is_rank c \<longleftrightarrow> c \<in> set ''12345678''"

definition is_digit :: "char \<Rightarrow> bool" where
  "is_digit c \<longleftrightarrow> c \<in> set ''0123456789''"

definition canonical_square :: "string \<Rightarrow> bool" where
  "canonical_square sq = (case sq of [f, r] \<Rightarrow> is_file f \<and> is_rank r | _ \<Rightarrow> False)"

text \<open>
  A keyword occurs in a text when, at some position of the text, its words follow one
  another, in small or capital letters and with any amount of white space (also none)
  between two words. \<open>starts_with kw s\<close>: the text \<open>s\<close> begins with the word \<open>kw\<close>,
  letter case aside. \<open>phrase_at ws s\<close>: the words \<open>ws\<close> stand at the beginning of \<open>s\<close>.
\<close>

fun starts_with :: "string \<Rightarrow> string \<Rightarrow> bool" where
  "starts_with [] s = True"
| "starts_with (p # ps) [] = False"
| "starts_with (p # ps) (c # s) = (canonicalize p = canonicalize c \<and> starts_with ps s)"

fun phrase_at :: "string list \<Rightarrow> string \<Rightarrow> bool" where
  "phrase_at [] s = True"
| "phrase_at [kw] s = starts_with kw s"
| "phrase_at (kw # kws) s =
     (starts_with kw s \<and> phrase_at kws (dropWhile is_space (drop (length kw) s)))"

fun occurs :: "string list \<Rightarrow> string \<Rightarrow> bool" where
  "occurs kws [] = phrase_at kws []"
| "occurs kws (c # s) = (phrase_at kws (c # s) \<or> occurs kws s)"

definition is_promotion :: "char \<Rightarrow> bool" where
  "is_promotion c \<longleftrightarrow> c \<in> set ''qrbn''"

text \<open>
  Keywords made of words that are not empty and hold no white space (all the keywords of the
  parser are).
\<close>

definition solid :: "string list \<Rightarrow> bool" where
  "solid kws \<longleftrightarrow> (\<forall>kw\<in>set kws. kw \<noteq> [] \<and> (\<forall>p\<in>set kw. \<not> is_space (canonicalize p)))"

text \<open>
  The pieces that may stand between the characters of a compact move: the connector words
  "to" and "two", and single white-space characters.
\<close>

definition connector_token :: "string \<Rightarrow> bool" where
  "connector_token tok \<longleftrightarrow>
     tok = ''to'' \<or> tok = ''two'' \<or> (case tok of [c] \<Rightarrow> is_space c | _ \<Rightarrow> False)"

text \<open>
  A file letter followed by what a template literal writes for a property that every object
  inherits.
\<close>

definition leaked_square :: "string \<Rightarrow> bool" where
  "leaked_square sq \<longleftrightarrow>
     list_ex (\<lambda>f. list_ex (\<lambda>kv. sq = f # to_text (Some (snd kv))) object_prototype) ''abcdefgh''"

declare rmatch.simps [simp del]
declare replace_all.simps [simp del]

section \<open>The session: events and their effects\<close>

lemmas controller_defs =
  run_def mount_def created_def emit_def handleToggle_def
  onstart_def onend_def onresult_def onerror_def call_then_speak_def

lemma parse_e2_to_e4: "parseVoiceCommand ''e2 to e4'' = Some (Move ''e2'' ''e4'')"
  by code_simp

text \<open>
  C2. A controller mounted on a supported platform that sees the button, then the
  recognizer's start, the result "e2 to e4" and the recognizer's end, is still
  \<open>Listening\<close> with the listening flag set; the end of the round added one more start
  request and nothing else; and the only call of a game callback in the whole session is
  the move from e2 to e4. This holds whether or not the callback comes back normally.
\<close>

theorem session_restarts_after_move:
  "status (run returns (mount True) [Toggle, OnStart, OnResult ''e2 to e4'', OnEnd]) = Listening
   \<and> isListeningActive (run returns (mount True) [Toggle, OnStart, OnResult ''e2 to e4'', OnEnd])
   \<and> effects (run returns (mount True) [Toggle, OnStart, OnResult ''e2 to e4'', OnEnd])
       = effects (run returns (mount True) [Toggle, OnStart, OnResult ''e2 to e4''])
         @ [RecognitionStart]
   \<and> filter is_game_call
        (effects (run returns (mount True) [Toggle, OnStart, OnResult ''e2 to e4'', OnEnd]))
       = [OnMove ''e2'' ''e4'']"
  by (simp add: controller_defs parse_e2_to_e4 Let_def)

theorem session_restarts_after_move_witness:
  "effects (run (\<lambda>e. True) (mount True) [Toggle, OnStart, OnResult ''e2 to e4'', OnEnd])
     = [Speak ''Welcome to vocal chess. Start by making your move.'', RecognitionStart,
        OnMove ''e2'' ''e4'', Speak ''Move e2 to e4 played.'', RecognitionStart]
   \<and> filter is_game_call
        (effects (run (\<lambda>e. True) (mount True) [Toggle, OnStart, OnResult ''e2 to e4'', OnEnd]))
       = [OnMove ''e2'' ''e4'']"
  using session_restarts_after_move [of "\<lambda>e. True"]
  by (simp add: controller_defs parse_e2_to_e4 Let_def)

text \<open>
  C5. An error event that arrives while the status is \<open>Listening\<close>: the code
  \<open>no-speech\<close> sets the status to \<open>Ready\<close> and changes nothing else, so nothing is
  spoken; any other code sets the status to \<open>Error\<close> and speaks the generic notice, and
  changes nothing else.
\<close>

theorem error_while_listening:
  assumes "status c = Listening"
  shows "handle returns c (OnError err) =
           (if err = ''no-speech'' then c\<lparr>status := Ready\<rparr>
            else c\<lparr>status := Error, effects := effects c @ [Speak ''An error occurred.'']\<rparr>)"
  using assms by (simp add: onerror_def emit_def)

theorem error_while_listening_witness:
  "status (onstart (mount True)) = Listening
   \<and> status (handle (\<lambda>e. True) (onstart (mount True)) (OnError ''no-speech'')) = Ready
   \<and> effects (handle (\<lambda>e. True) (onstart (mount True)) (OnError ''no-speech''))
       = effects (onstart (mount True))
   \<and> status (handle (\<lambda>e. True) (onstart (mount True)) (OnError ''network'')) = Error
   \<and> effects (handle (\<lambda>e. True) (onstart (mount True)) (OnError ''network''))
       = effects (onstart (mount True)) @ [Speak ''An error occurred.'']"
proof -
  have l: "status (onstart (mount True)) = Listening"
    by (simp add: onstart_def)
  show ?thesis
    using l error_while_listening [OF l, of "\<lambda>e. True" "''no-speech''"]
      error_while_listening [OF l, of "\<lambda>e. True" "''network''"]
    by simp
qed

text \<open>
  C6. A transcript that the parser does not recognise: the controller records it as the
  last command and speaks "Invalid format."; nothing else changes, so no game callback is
  called and the status and the listening flag are as before.
\<close>

theorem unparsed_result_only_notice:
  assumes "parseVoiceCommand transcript = None"
  shows "handle returns c (OnResult transcript) =
           c\<lparr>lastCommand := transcript, effects := effects c @ [Speak ''Invalid format.'']\<rparr>"
  using assms by (simp add: onresult_def emit_def)

lemma parse_banana: "parseVoiceCommand ''banana'' = None"
  by code_simp

theorem unparsed_result_only_notice_witness:
  "parseVoiceCommand ''banana'' = None
   \<and> handle (\<lambda>e. True) (onstart (mount True)) (OnResult ''banana'') =
       \<lparr>status = Listening, isListeningActive = False, hasRecognition = True,
        lastCommand = ''banana'',
        effects = [Speak ''Welcome to vocal chess. Start by making your move.'',
                   Speak ''Invalid format.'']\<rparr>"
  using parse_banana
    unparsed_result_only_notice [OF parse_banana, of "\<lambda>e. True" "onstart (mount True)"]
  by (simp add: controller_defs)

text \<open>
  C7. A transcript that parses to a castling command, on either side: the controller
  records it as the last command and does nothing else: no game callback is called, nothing
  is spoken, and the status and the listening flag are as before.
\<close>

theorem castle_result_no_action:
  assumes "parseVoiceCommand transcript = Some (Castle sd)"
  shows "handle returns c (OnResult transcript) = c\<lparr>lastCommand := transcript\<rparr>"
  using assms by (simp add: onresult_def)

lemma parse_castle_long: "parseVoiceCommand ''castle long'' = Some (Castle Queenside)"
  by code_simp

lemma parse_castle: "parseVoiceCommand ''castle'' = Some (Castle Kingside)"
  by code_simp

theorem castle_result_no_action_witness:
  "parseVoiceCommand ''castle long'' = Some (Castle Queenside)
   \<and> handle (\<lambda>e. True) (onstart (mount True)) (OnResult ''castle long'') =
       \<lparr>status = Listening, isListeningActive = False, hasRecognition = True,
        lastCommand = ''castle long'',
        effects = [Speak ''Welcome to vocal chess. Start by making your move.'']\<rparr>
   \<and> parseVoiceCommand ''castle'' = Some (Castle Kingside)
   \<and> handle (\<lambda>e. True) (onstart (mount True)) (OnResult ''castle'') =
       \<lparr>status = Listening, isListeningActive = False, hasRecognition = True,
        lastCommand = ''castle'',
        effects = [Speak ''Welcome to vocal chess. Start by making your move.'']\<rparr>"
  using parse_castle_long parse_castle
    castle_result_no_action [OF parse_castle_long, of "\<lambda>e. True" "onstart (mount True)"]
    castle_result_no_action [OF parse_castle, of "\<lambda>e. True" "onstart (mount True)"]
  by (simp add: controller_defs)




section \<open>The matcher on the patterns of the source\<close>

lemma star_space_Nil: "rmatch ic (Star Space) ([], caps) = [([], caps)]"
  by (simp add: rmatch.simps)

lemma star_space_Cons:
  "rmatch ic (Star Space) (c # s, caps) =
     (if is_space c then rmatch ic (Star Space) (s, caps) @ [(c # s, caps)] else [(c # s, caps)])"
  by (simp add: rmatch.simps)

lemma seq_star_space:
  assumes "\<And>c s caps. is_space c \<Longrightarrow> rmatch ic r (c # s, caps) = []"
  shows "rmatch ic (Seq (Star Space) r) (s, caps) = rmatch ic r (dropWhile is_space s, caps)"
proof (induction s)
  case Nil
  show ?case by (simp add: rmatch.simps(4) star_space_Nil)
next
  case (Cons c s)
  show ?case
  proof (cases "is_space c")
    case True
    have "rmatch ic (Seq (Star Space) r) (c # s, caps)
            = rmatch ic (Seq (Star Space) r) (s, caps) @ rmatch ic r (c # s, caps)"
      using True by (simp add: rmatch.simps(4) star_space_Cons)
    then show ?thesis using True Cons assms by simp
  next
    case False
    then show ?thesis by (simp add: rmatch.simps(4) star_space_Cons)
  qed
qed

lemma lit_starts_with:
  "(length p \<le> length s \<and> list_all2 (char_eq True) p (take (length p) s)) = starts_with p s"
  by (induction p s rule: starts_with.induct) (auto simp: char_eq_def)

lemma rmatch_lit_ci:
  "rmatch True (Lit p) (s, caps) = (if starts_with p s then [(drop (length p) s, caps)] else [])"
  using lit_starts_with [of p s] by (simp add: rmatch.simps(1))

lemma canonicalize_space: "is_space c \<Longrightarrow> canonicalize c = c"
  by (auto simp: is_space_def canonicalize_def)

lemma seq_lit_space_lit:
  assumes "\<not> is_space (canonicalize q)"
  shows "rmatch True (Seq (Lit p) (Seq (Star Space) (Lit (q # qs)))) (s, caps) =
           (if phrase_at [p, q # qs] s
            then [(drop (length (q # qs)) (dropWhile is_space (drop (length p) s)), caps)]
            else [])"
proof -
  have fail: "rmatch True (Lit (q # qs)) (c # s', caps') = []" if "is_space c" for c s' caps'
    using that assms canonicalize_space [OF that] by (auto simp: rmatch_lit_ci)
  show ?thesis
    by (simp add: rmatch.simps(4) [of True "Lit p"] rmatch_lit_ci
          seq_star_space [of True "Lit (q # qs)", OF fail])
qed

lemma g_not_space: "\<not> is_space (canonicalize CHR ''g'')"
  by code_simp

lemma b_not_space: "\<not> is_space (canonicalize CHR ''b'')"
  by code_simp

lemma rx_newgame_here:
  "rmatch True rx_newgame (s, caps) \<noteq> [] \<longleftrightarrow>
     phrase_at [''new'', ''game''] s \<or> phrase_at [''reset''] s"
  unfolding rx_newgame_def
  by (simp add: rmatch.simps(5) seq_lit_space_lit [OF g_not_space] rmatch_lit_ci)

lemma rx_undo_here:
  "rmatch True rx_undo (s, caps) \<noteq> [] \<longleftrightarrow>
     phrase_at [''undo''] s \<or> phrase_at [''take'', ''back''] s"
  unfolding rx_undo_def
  by (simp add: rmatch.simps(5) seq_lit_space_lit [OF b_not_space] rmatch_lit_ci)

lemma rx_castle_here:
  "rmatch True rx_castle (s, caps) \<noteq> [] \<longleftrightarrow>
     phrase_at [''castle''] s \<or> phrase_at [''castling''] s"
  unfolding rx_castle_def
  by (simp add: rmatch.simps(5) rmatch_lit_ci)

lemma rx_test_Nil: "rx_test ic r [] = (rmatch ic r ([], []) \<noteq> [])"
  by (simp add: rx_test_def split: list.splits)

lemma rx_test_Cons: "rx_test ic r (c # s) = (rmatch ic r (c # s, []) \<noteq> [] \<or> rx_test ic r s)"
  by (simp add: rx_test_def split: list.splits)

lemma rx_test_occurs:
  assumes "\<And>s. rmatch ic r (s, []) \<noteq> [] \<longleftrightarrow> phrase_at k1 s \<or> phrase_at k2 s"
  shows "rx_test ic r s \<longleftrightarrow> occurs k1 s \<or> occurs k2 s"
  by (induction s) (auto simp: rx_test_Nil rx_test_Cons assms)

section \<open>Keywords and white space at the ends of a text\<close>

lemma starts_with_space:
  assumes "is_space c" "\<not> is_space (canonicalize p)"
  shows "\<not> starts_with (p # ps) (c # s)"
  using assms canonicalize_space [of c] by auto

lemma phrase_at_space:
  assumes "solid (kw # kws)" "is_space c"
  shows "\<not> phrase_at (kw # kws) (c # s)"
proof -
  obtain p ps where kw: "kw = p # ps" and p: "\<not> is_space (canonicalize p)"
    using assms(1) by (cases kw) (auto simp: solid_def)
  have "\<not> starts_with kw (c # s)"
    unfolding kw by (rule starts_with_space [OF assms(2) p])
  then show ?thesis by (cases kws) auto
qed

lemma occurs_dropWhile:
  assumes "solid (kw # kws)"
  shows "occurs (kw # kws) (dropWhile is_space s) = occurs (kw # kws) s"
  by (induction s) (auto simp: phrase_at_space [OF assms] simp del: phrase_at.simps)

lemma starts_with_length: "starts_with kw s \<Longrightarrow> length kw \<le> length s"
  by (induction kw s rule: starts_with.induct) auto

lemma starts_with_trailing:
  assumes "\<forall>p\<in>set kw. \<not> is_space (canonicalize p)" "\<forall>c\<in>set sp. is_space c"
  shows "starts_with kw (x @ sp) = starts_with kw x"
  using assms
proof (induction kw x rule: starts_with.induct)
  case (1 s)
  show ?case by simp
next
  case (2 p ps)
  show ?case
  proof (cases sp)
    case Nil
    then show ?thesis by simp
  next
    case (Cons c sp')
    then have "is_space c" using 2 by simp
    then show ?thesis using Cons 2 starts_with_space [of c p ps sp'] by simp
  qed
next
  case (3 p ps c s)
  then show ?case by simp
qed

lemma dropWhile_trailing:
  assumes "\<forall>c\<in>set sp. is_space c"
  shows "dropWhile is_space (y @ sp) = dropWhile is_space y
         \<or> dropWhile is_space (y @ sp) = dropWhile is_space y @ sp"
  using assms by (induction y) (auto simp: dropWhile_eq_Nil_conv)

lemma phrase_at_trailing:
  assumes "solid kws" "\<forall>c\<in>set sp. is_space c"
  shows "phrase_at kws (x @ sp) = phrase_at kws x"
  using assms(1)
proof (induction kws x rule: phrase_at.induct)
  case (1 s)
  show ?case by simp
next
  case (2 kw s)
  then show ?case using starts_with_trailing [OF _ assms(2)] by (simp add: solid_def)
next
  case (3 kw v va s)
  have kw: "\<forall>p\<in>set kw. \<not> is_space (canonicalize p)" and rest: "solid (v # va)"
    using 3(2) by (auto simp: solid_def)
  have sw: "starts_with kw (s @ sp) = starts_with kw s"
    by (rule starts_with_trailing [OF kw assms(2)])
  show ?case
  proof (cases "starts_with kw s")
    case False
    then show ?thesis using sw by simp
  next
    case True
    then have len: "length kw \<le> length s" by (rule starts_with_length)
    let ?y = "drop (length kw) s"
    have d: "drop (length kw) (s @ sp) = ?y @ sp" using len by simp
    have "phrase_at (v # va) (dropWhile is_space (?y @ sp))
            = phrase_at (v # va) (dropWhile is_space ?y)"
      using dropWhile_trailing [OF assms(2), of ?y] 3(1) [OF rest] by auto
    then show ?thesis using True sw d by simp
  qed
qed

lemma occurs_spaces:
  assumes "solid kws" "\<forall>c\<in>set sp. is_space c"
  shows "occurs kws sp = phrase_at kws []"
  using assms(2)
proof (induction sp)
  case Nil
  show ?case by simp
next
  case (Cons c sp)
  have "phrase_at kws ([] @ c # sp) = phrase_at kws []"
    by (rule phrase_at_trailing [OF assms(1)]) (use Cons in auto)
  then show ?case using Cons by simp
qed

lemma occurs_trailing:
  assumes "solid kws" "\<forall>c\<in>set sp. is_space c"
  shows "occurs kws (s @ sp) = occurs kws s"
proof (induction s)
  case Nil
  show ?case using occurs_spaces [OF assms] by simp
next
  case (Cons c s)
  have "phrase_at kws ((c # s) @ sp) = phrase_at kws (c # s)"
    by (rule phrase_at_trailing [OF assms])
  then show ?case using Cons by simp
qed

lemma trim_decompose:
  "\<exists>sp. (\<forall>c\<in>set sp. is_space c) \<and> dropWhile is_space s = trim s @ sp"
proof -
  let ?u = "dropWhile is_space s"
  have "rev (dropWhile is_space (rev ?u)) @ rev (takeWhile is_space (rev ?u))
          = rev (takeWhile is_space (rev ?u) @ dropWhile is_space (rev ?u))"
    by (simp only: rev_append)
  also have "\<dots> = ?u"
    by (simp only: takeWhile_dropWhile_id rev_rev_ident)
  finally have "?u = trim s @ rev (takeWhile is_space (rev ?u))"
    by (simp add: trim_def)
  moreover have "\<forall>c\<in>set (rev (takeWhile is_space (rev ?u))). is_space c"
    by (auto dest: set_takeWhileD)
  ultimately show ?thesis by blast
qed

lemma occurs_trim:
  assumes "solid (kw # kws)"
  shows "occurs (kw # kws) (trim s) = occurs (kw # kws) s"
proof -
  obtain sp where sp: "\<forall>c\<in>set sp. is_space c" and d: "dropWhile is_space s = trim s @ sp"
    using trim_decompose by blast
  have "occurs (kw # kws) s = occurs (kw # kws) (trim s @ sp)"
    using occurs_dropWhile [OF assms, of s] d by simp
  also have "\<dots> = occurs (kw # kws) (trim s)"
    by (rule occurs_trailing [OF assms sp])
  finally show ?thesis by simp
qed

section \<open>The two global replacements\<close>

lemma star_space_hd:
  "\<exists>rest. rmatch ic (Star Space) (s, caps) = (dropWhile is_space s, caps) # rest"
  by (induction s) (auto simp: star_space_Nil star_space_Cons)

lemma plus_space_Cons:
  "rmatch ic (Plus Space) (c # s, caps) =
     (if is_space c then rmatch ic (Star Space) (s, caps) else [])"
  by (simp add: rmatch.simps(3,8))

lemma filter_dropWhile_not: "filter (\<lambda>c. \<not> P c) (dropWhile P s) = filter (\<lambda>c. \<not> P c) s"
  by (induction s) auto

lemma strip_spaces:
  "replace_all False (Plus Space) [] s = filter (\<lambda>c. \<not> is_space c) s"
proof (induction "length s" arbitrary: s rule: less_induct)
  case less
  show ?case
  proof (cases s)
    case Nil
    then show ?thesis by (simp add: replace_all.simps rmatch.simps(3,8))
  next
    case (Cons c s')
    show ?thesis
    proof (cases "is_space c")
      case False
      then show ?thesis
        using less [of s'] Cons by (simp add: replace_all.simps plus_space_Cons)
    next
      case True
      obtain rest where r: "rmatch False (Star Space) (s', []) = (dropWhile is_space s', []) # rest"
        using star_space_hd by blast
      have le: "length (dropWhile is_space s') \<le> length s'"
        by (rule length_dropWhile_le)
      have "replace_all False (Plus Space) [] s
              = replace_all False (Plus Space) [] (dropWhile is_space s')"
        using True Cons r le by (simp add: replace_all.simps plus_space_Cons)
      also have "\<dots> = filter (\<lambda>c. \<not> is_space c) (dropWhile is_space s')"
        using less [of "dropWhile is_space s'"] le Cons by simp
      finally show ?thesis using True Cons by (simp add: filter_dropWhile_not)
    qed
  qed
qed

lemma lit_Nil: "rmatch ic (Lit []) (s, caps) = [(s, caps)]"
  by (simp add: rmatch.simps(1))

lemma lit_Cons_Nil: "rmatch ic (Lit (p # ps)) ([], caps) = []"
  by (simp add: rmatch.simps(1))

lemma lit_Cons_Cons:
  "rmatch ic (Lit (p # ps)) (c # s, caps) =
     (if char_eq ic p c then rmatch ic (Lit ps) (s, caps) else [])"
  by (simp add: rmatch.simps(1))

lemmas lit_simps = lit_Nil lit_Cons_Nil lit_Cons_Cons

lemma connector_match_other:
  "c \<noteq> CHR ''t'' \<Longrightarrow> rmatch False rx_connector (c # s, caps) = []"
  by (simp add: rx_connector_def rmatch.simps(5) lit_simps char_eq_def)

lemma connector_match_t:
  "rmatch False rx_connector (CHR ''t'' # s, caps) =
     (case s of
        [] \<Rightarrow> []
      | a # s1 \<Rightarrow>
          if a = CHR ''o'' then
            (s1, caps) # (case s1 of [] \<Rightarrow> [] | b # s2 \<Rightarrow> if b = CHR ''o'' then [(s2, caps)] else [])
          else if a = CHR ''w'' then
            (case s1 of [] \<Rightarrow> [] | b # s2 \<Rightarrow> if b = CHR ''o'' then [(s2, caps)] else [])
          else [])"
  by (auto simp add: rx_connector_def rmatch.simps(5) lit_simps char_eq_def split: list.splits)

lemma strip_connectors_Nil: "replace_all False rx_connector [] [] = []"
  by (simp add: replace_all.simps rx_connector_def rmatch.simps(5) lit_simps)

lemma strip_connectors_other:
  "c \<noteq> CHR ''t'' \<Longrightarrow>
     replace_all False rx_connector [] (c # s) = c # replace_all False rx_connector [] s"
  by (simp add: replace_all.simps connector_match_other)

lemma strip_connectors_t:
  "replace_all False rx_connector [] (CHR ''t'' # s) =
     (case s of
        [] \<Rightarrow> ''t''
      | a # s1 \<Rightarrow>
          if a = CHR ''o'' then replace_all False rx_connector [] s1
          else if a = CHR ''w'' then
            (case s1 of
               [] \<Rightarrow> CHR ''t'' # replace_all False rx_connector [] s
             | b # s2 \<Rightarrow>
                 if b = CHR ''o'' then replace_all False rx_connector [] s2
                 else CHR ''t'' # replace_all False rx_connector [] s)
          else CHR ''t'' # replace_all False rx_connector [] s)"
  by (auto simp add: replace_all.simps connector_match_t strip_connectors_Nil split: list.splits)

lemmas strip_connectors_simps = strip_connectors_Nil strip_connectors_other strip_connectors_t

lemma strip_connectors_subset: "set (replace_all False rx_connector [] s) \<subseteq> set s"
proof (induction "length s" arbitrary: s rule: less_induct)
  case less
  show ?case
  proof (cases s)
    case Nil
    then show ?thesis by (simp add: strip_connectors_Nil)
  next
    case (Cons a s1)
    show ?thesis
    proof (cases "a = CHR ''t''")
      case False
      then show ?thesis using less [of s1] Cons by (auto simp: strip_connectors_other)
    next
      case True
      have 1: "set (replace_all False rx_connector [] s1) \<subseteq> set s1"
        using less [of s1] Cons by simp
      have 2: "set (replace_all False rx_connector [] (tl s1)) \<subseteq> set (tl s1)"
        using less [of "tl s1"] Cons by simp
      have 3: "set (replace_all False rx_connector [] (tl (tl s1))) \<subseteq> set (tl (tl s1))"
        using less [of "tl (tl s1)"] Cons by simp
      show ?thesis
        using True Cons 1 2 3
        by (auto simp: strip_connectors_t split: list.splits if_splits)
    qed
  qed
qed

lemma strip_connectors_keeps:
  assumes "d \<noteq> CHR ''t''" "d \<noteq> CHR ''w''" "d \<noteq> CHR ''o''"
  shows "d \<in> set s \<Longrightarrow> d \<in> set (replace_all False rx_connector [] s)"
proof (induction "length s" arbitrary: s rule: less_induct)
  case less
  show ?case
  proof (cases s)
    case Nil
    then show ?thesis using less(2) by simp
  next
    case (Cons a s1)
    show ?thesis
    proof (cases "a = CHR ''t''")
      case False
      then show ?thesis using less(1) [of s1] less(2) Cons by (auto simp: strip_connectors_other)
    next
      case True
      have 1: "d \<in> set s1 \<Longrightarrow> d \<in> set (replace_all False rx_connector [] s1)"
        using less(1) [of s1] Cons by simp
      have 2: "d \<in> set (tl s1) \<Longrightarrow> d \<in> set (replace_all False rx_connector [] (tl s1))"
        using less(1) [of "tl s1"] Cons by simp
      have 3: "d \<in> set (tl (tl s1)) \<Longrightarrow> d \<in> set (replace_all False rx_connector [] (tl (tl s1)))"
        using less(1) [of "tl (tl s1)"] Cons by simp
      show ?thesis
        using True Cons 1 2 3 less(2) assms
        by (auto simp: strip_connectors_t split: list.splits if_splits)
    qed
  qed
qed

lemma strip_connectors_append:
  assumes "c \<noteq> CHR ''t''" "c \<noteq> CHR ''w''" "c \<noteq> CHR ''o''"
  shows "replace_all False rx_connector [] (u @ c # v) =
           replace_all False rx_connector [] u @ c # replace_all False rx_connector [] v"
proof (induction "length u" arbitrary: u rule: less_induct)
  case less
  show ?case
  proof (cases u)
    case Nil
    then show ?thesis using assms by (simp add: strip_connectors_simps)
  next
    case (Cons a u1)
    show ?thesis
    proof (cases "a = CHR ''t''")
      case False
      then show ?thesis using less [of u1] Cons by (simp add: strip_connectors_other)
    next
      case True
      have 1: "replace_all False rx_connector [] (u1 @ c # v) =
                 replace_all False rx_connector [] u1 @ c # replace_all False rx_connector [] v"
        using less [of u1] Cons by simp
      have 2: "replace_all False rx_connector [] (tl u1 @ c # v) =
                 replace_all False rx_connector [] (tl u1) @ c # replace_all False rx_connector [] v"
        using less [of "tl u1"] Cons by simp
      have 3: "replace_all False rx_connector [] (tl (tl u1) @ c # v) =
                 replace_all False rx_connector [] (tl (tl u1)) @ c # replace_all False rx_connector [] v"
        using less [of "tl (tl u1)"] Cons by simp
      show ?thesis
      proof (cases u1)
        case Nil
        then show ?thesis using True Cons assms by (simp add: strip_connectors_simps)
      next
        case u1: (Cons b u2)
        show ?thesis
        proof (cases u2)
          case Nil
          then show ?thesis
            using True Cons u1 assms 1 2
            by (auto simp: strip_connectors_simps)
        next
          case u2: (Cons e u3)
          then show ?thesis
            using True Cons u1 assms 1 2 3
            by (auto simp: strip_connectors_t)
        qed
      qed
    qed
  qed
qed

section \<open>Characters by their codes\<close>

lemma char_eq_code: "(c = d) = ((of_char c :: nat) = of_char d)"
  by simp

lemma is_file_code: "is_file c \<longleftrightarrow> 97 \<le> (of_char c :: nat) \<and> (of_char c :: nat) \<le> 104"
  unfolding is_file_def
  by (simp add: char_eq_code [of c] del: of_char_eq_iff) arith

lemma is_rank_code: "is_rank c \<longleftrightarrow> 49 \<le> (of_char c :: nat) \<and> (of_char c :: nat) \<le> 56"
  unfolding is_rank_def
  by (simp add: char_eq_code [of c] del: of_char_eq_iff) arith

lemma is_digit_code: "is_digit c \<longleftrightarrow> 48 \<le> (of_char c :: nat) \<and> (of_char c :: nat) \<le> 57"
  unfolding is_digit_def
  by (simp add: char_eq_code [of c] del: of_char_eq_iff) arith

lemma is_space_code: "is_space c \<longleftrightarrow> (of_char c :: nat) \<in> {9, 10, 11, 12, 13, 32, 160}"
  unfolding is_space_def
  by (simp add: char_eq_code [of c] del: of_char_eq_iff)

lemma canonicalize_code:
  "(of_char (canonicalize c) :: nat) =
     (let n = of_char c in
      if (97 \<le> n \<and> n \<le> 122) \<or> (224 \<le> n \<and> n \<le> 254 \<and> n \<noteq> 247) then n - 32 else n)"
proof -
  have "(of_char c :: nat) < 256" by simp
  then have "(of_char c :: nat) - 32 < 256" by arith
  then show ?thesis
    by (simp add: canonicalize_def Let_def)
qed

lemma lower_char_code:
  "(of_char (lower_char c) :: nat) =
     (let n = of_char c in
      if (65 \<le> n \<and> n \<le> 90) \<or> (192 \<le> n \<and> n \<le> 222 \<and> n \<noteq> 215) then n + 32 else n)"
proof -
  have "(of_char c :: nat) < 256" by simp
  then show ?thesis
    by (simp add: lower_char_def Let_def)
qed

lemma class_file: "class_mem False [(CHR ''a'', CHR ''h'')] c = is_file c"
  by (simp add: class_mem_def in_ranges_def is_file_code)

lemma class_rank: "class_mem ic [(CHR ''1'', CHR ''8'')] c = is_rank c"
  by (auto simp add: class_mem_def in_ranges_def is_rank_code canonicalize_code lower_char_code Let_def)

lemma class_file_ci:
  "class_mem True [(CHR ''a'', CHR ''h''), (CHR ''A'', CHR ''H'')] c = is_file (lower_char c)"
  by (auto simp add: class_mem_def in_ranges_def is_file_code canonicalize_code lower_char_code Let_def)

lemma class_file_cs:
  "class_mem False [(CHR ''a'', CHR ''h''), (CHR ''A'', CHR ''H'')] c = is_file (lower_char c)"
  by (auto simp add: class_mem_def in_ranges_def is_file_code canonicalize_code lower_char_code Let_def)

lemma class_promotion:
  "class_mem False [(CHR ''q'', CHR ''q''), (CHR ''r'', CHR ''r''),
                    (CHR ''b'', CHR ''b''), (CHR ''n'', CHR ''n'')] c = is_promotion c"
  by (auto simp add: class_mem_def in_ranges_def is_promotion_def char_eq_code [of c] simp del: of_char_eq_iff)

text \<open>
  The class test of the model is the test of the language definition: some member of the
  class has the canonical form of the character.
\<close>

lemma class_mem_canonical:
  "class_mem True rs c \<longleftrightarrow> (\<exists>a. in_ranges rs a \<and> canonicalize a = canonicalize c)"
proof
  assume "class_mem True rs c"
  moreover have "canonicalize (canonicalize c) = canonicalize c"
    by (rule of_char_eqI [where ?'a = nat]) (auto simp: canonicalize_code Let_def)
  moreover have "canonicalize (lower_char c) = canonicalize c"
    by (rule of_char_eqI [where ?'a = nat]) (auto simp: canonicalize_code lower_char_code Let_def)
  ultimately show "\<exists>a. in_ranges rs a \<and> canonicalize a = canonicalize c"
    unfolding class_mem_def by blast
next
  assume "\<exists>a. in_ranges rs a \<and> canonicalize a = canonicalize c"
  then obtain a where a: "in_ranges rs a" and eq: "canonicalize a = canonicalize c" by blast
  have "(of_char (canonicalize a) :: nat) = of_char (canonicalize c)" using eq by simp
  then have "(of_char a :: nat) = of_char c \<or> (of_char a :: nat) = of_char (canonicalize c)
             \<or> (of_char a :: nat) = of_char (lower_char c)"
    unfolding canonicalize_code lower_char_code Let_def
    by (auto simp del: of_char_eq_iff split: if_splits)
  then have "a = c \<or> a = canonicalize c \<or> a = lower_char c" by simp
  then show "class_mem True rs c" using a unfolding class_mem_def by blast
qed

section \<open>The compact pattern\<close>

lemma class_Nil: "rmatch ic (Class rs) ([], caps) = []"
  by (simp add: rmatch.simps(2))

lemma class_Cons:
  "rmatch ic (Class rs) (c # s, caps) = (if class_mem ic rs c then [(s, caps)] else [])"
  by (simp add: rmatch.simps(2))

lemma uci_square:
  "rmatch False (Group n (Seq (Class [(CHR ''a'', CHR ''h'')]) (Class [(CHR ''1'', CHR ''8'')])))
     (s, caps) =
     (case s of
        a # b # rest \<Rightarrow> if is_file a \<and> is_rank b then [(rest, (n, [a, b]) # caps)] else []
      | _ \<Rightarrow> [])"
  by (simp add: rmatch.simps(4,9) class_Nil class_Cons class_file class_rank split: list.splits)

lemma uci_promotion:
  "rmatch False (Opt (Group 3 (Class [(CHR ''q'', CHR ''q''), (CHR ''r'', CHR ''r''),
                                    (CHR ''b'', CHR ''b''), (CHR ''n'', CHR ''n'')]))) (s, caps) =
     (case s of
        p # rest \<Rightarrow> if is_promotion p then [(rest, (3, [p]) # caps), (s, caps)] else [(s, caps)]
      | [] \<Rightarrow> [(s, caps)])"
  by (simp add: rmatch.simps(6,9) class_Nil class_Cons class_promotion split: list.splits)

lemma uci_match:
  "rmatch False rx_uci (s, []) =
     (case s of
        a # b # c # d # rest \<Rightarrow>
          if is_file a \<and> is_rank b \<and> is_file c \<and> is_rank d
          then (case rest of
                  p # rest' \<Rightarrow>
                    if is_promotion p
                    then [(rest', [(3, [p]), (2, [c, d]), (1, [a, b])]),
                          (rest, [(2, [c, d]), (1, [a, b])])]
                    else [(rest, [(2, [c, d]), (1, [a, b])])]
                | [] \<Rightarrow> [(rest, [(2, [c, d]), (1, [a, b])])])
          else []
      | _ \<Rightarrow> [])"
  unfolding rx_uci_def
  by (simp add: rmatch.simps(4) [where ?r1.0 = "Group n r" for n r] uci_square uci_promotion
        split: list.splits)

lemma uci_anchored_Some:
  assumes "rx_exec_anchored False rx_uci s = Some m"
  shows "\<exists>a b c d. is_file a \<and> is_rank b \<and> is_file c \<and> is_rank d
           \<and> (s = [a, b, c, d] \<or> (\<exists>p. is_promotion p \<and> s = [a, b, c, d, p]))
           \<and> group_text 1 m = [a, b] \<and> group_text 2 m = [c, d]"
  using assms unfolding rx_exec_anchored_def uci_match
  by (auto simp: group_text_def split: list.splits if_splits)

lemma uci_anchored_four:
  assumes "is_file a" "is_rank b" "is_file c" "is_rank d"
  shows "rx_exec_anchored False rx_uci [a, b, c, d] = Some ([], [(2, [c, d]), (1, [a, b])])"
  using assms unfolding rx_exec_anchored_def uci_match by simp

lemma uci_anchored_five:
  assumes "is_file a" "is_rank b" "is_file c" "is_rank d" "is_promotion p"
  shows "rx_exec_anchored False rx_uci [a, b, c, d, p]
           = Some ([], [(3, [p]), (2, [c, d]), (1, [a, b])])"
  using assms unfolding rx_exec_anchored_def uci_match by simp

section \<open>The lifecycle keywords\<close>

lemma starts_with_mem:
  "starts_with kw s \<Longrightarrow> p \<in> set kw \<Longrightarrow> \<exists>c\<in>set s. canonicalize c = canonicalize p"
  by (induction kw s rule: starts_with.induct) auto

lemma phrase_at_mem:
  "phrase_at kws s \<Longrightarrow> kw \<in> set kws \<Longrightarrow> p \<in> set kw \<Longrightarrow>
     \<exists>c\<in>set s. canonicalize c = canonicalize p"
proof (induction kws s rule: phrase_at.induct)
  case (1 s)
  then show ?case by simp
next
  case (2 k s)
  then show ?case using starts_with_mem [of k s p] by simp
next
  case (3 k v va s)
  show ?case
  proof (cases "kw = k")
    case True
    then show ?thesis using 3(2,4) starts_with_mem [of k s p] by simp
  next
    case False
    then have "kw \<in> set (v # va)" using 3(3) by simp
    then obtain c where "c \<in> set (dropWhile is_space (drop (length k) s))"
      and c: "canonicalize c = canonicalize p"
      using 3 by auto
    then have "c \<in> set s" by (meson in_set_dropD set_dropWhileD)
    then show ?thesis using c by blast
  qed
qed

lemma occurs_mem:
  "occurs kws s \<Longrightarrow> kw \<in> set kws \<Longrightarrow> p \<in> set kw \<Longrightarrow>
     \<exists>c\<in>set s. canonicalize c = canonicalize p"
proof (induction s)
  case Nil
  then show ?case using phrase_at_mem [of kws "[]" kw p] by simp
next
  case (Cons a s)
  then show ?case using phrase_at_mem [of kws "a # s" kw p] by auto
qed

lemma lower_of_canonical:
  assumes "97 \<le> (of_char p :: nat)" "(of_char p :: nat) \<le> 122"
    and "canonicalize c = canonicalize p"
  shows "lower_char c = p"
proof -
  have "(of_char (canonicalize c) :: nat) = of_char (canonicalize p)"
    using assms(3) by simp
  then have "(of_char (lower_char c) :: nat) = of_char p"
    using assms(1,2) unfolding canonicalize_code lower_char_code Let_def
    by (auto simp del: of_char_eq_iff split: if_splits)
  then show ?thesis by simp
qed

lemma uci_alphabet:
  assumes "rx_exec_anchored False rx_uci s = Some m"
  shows "\<forall>c\<in>set s. is_file c \<or> is_rank c \<or> is_promotion c"
  using uci_anchored_Some [OF assms] by auto

text \<open>A letter that the cleaning keeps and the compact pattern cannot hold.\<close>

lemma keyword_blocks_uci:
  assumes occ: "occurs (kw # kws) t" and solid: "solid (kw # kws)"
    and k: "k \<in> set (kw # kws)" and p: "p \<in> set k"
    and lower: "97 \<le> (of_char p :: nat)" "(of_char p :: nat) \<le> 122"
    and keep: "p \<noteq> CHR ''t''" "p \<noteq> CHR ''w''" "p \<noteq> CHR ''o''"
    and out: "\<not> is_file p" "\<not> is_promotion p"
  shows "rx_exec_anchored False rx_uci
           (replace_all False (Plus Space) []
              (replace_all False rx_connector [] (toLowerCase (trim t)))) = None"
proof (rule ccontr)
  assume "\<not> ?thesis"
  then obtain m where m: "rx_exec_anchored False rx_uci
           (replace_all False (Plus Space) []
              (replace_all False rx_connector [] (toLowerCase (trim t)))) = Some m"
    by auto
  have "occurs (kw # kws) (trim t)"
    using occ occurs_trim [OF solid] by simp
  then obtain c where c: "c \<in> set (trim t)" and cp: "canonicalize c = canonicalize p"
    using occurs_mem [OF _ k p] by blast
  have "lower_char c = p" by (rule lower_of_canonical [OF lower cp])
  then have "p \<in> set (toLowerCase (trim t))"
    using c by (auto simp: toLowerCase_def)
  then have "p \<in> set (replace_all False rx_connector [] (toLowerCase (trim t)))"
    by (rule strip_connectors_keeps [OF keep])
  moreover have ns: "\<not> is_space p" and nr: "\<not> is_rank p"
    using lower by (auto simp: is_space_code is_rank_code)
  ultimately have "p \<in> set (replace_all False (Plus Space) []
              (replace_all False rx_connector [] (toLowerCase (trim t))))"
    by (simp add: strip_spaces)
  then show False using uci_alphabet [OF m] out nr by blast
qed

lemma move_of_Some: "move_of a b = Some c \<Longrightarrow> \<exists>f t. c = Move f t"
  by (auto simp: move_of_def split: option.splits if_splits)

lemma simple_move_Some: "simple_move t = Some c \<Longrightarrow> \<exists>f t. c = Move f t"
  by (auto simp: simple_move_def split: option.splits dest: move_of_Some)

lemma token_move_Some: "token_move t = Some c \<Longrightarrow> \<exists>f t. c = Move f t"
  by (auto simp: token_move_def Let_def split: option.splits if_splits dest: move_of_Some)

lemma solid_keywords:
  "solid [''new'', ''game'']" "solid [''reset'']" "solid [''undo'']" "solid [''take'', ''back'']"
  "solid [''castle'']" "solid [''castling'']"
  by code_simp+

lemma test_newgame:
  "rx_test True rx_newgame (trim t) \<longleftrightarrow> occurs [''new'', ''game''] t \<or> occurs [''reset''] t"
  using rx_test_occurs [of True rx_newgame, OF rx_newgame_here, of "trim t"]
  by (simp only: occurs_trim [OF solid_keywords(1)] occurs_trim [OF solid_keywords(2)])

lemma test_undo:
  "rx_test True rx_undo (trim t) \<longleftrightarrow> occurs [''undo''] t \<or> occurs [''take'', ''back''] t"
  using rx_test_occurs [of True rx_undo, OF rx_undo_here, of "trim t"]
  by (simp only: occurs_trim [OF solid_keywords(3)] occurs_trim [OF solid_keywords(4)])

lemma test_castle:
  "rx_test True rx_castle (trim t) \<longleftrightarrow> occurs [''castle''] t \<or> occurs [''castling''] t"
  using rx_test_occurs [of True rx_castle, OF rx_castle_here, of "trim t"]
  by (simp only: occurs_trim [OF solid_keywords(5)] occurs_trim [OF solid_keywords(6)])

lemma lifecycle_blocks_uci:
  assumes "occurs [''new'', ''game''] t \<or> occurs [''reset''] t
           \<or> occurs [''undo''] t \<or> occurs [''take'', ''back''] t"
  shows "rx_exec_anchored False rx_uci
           (replace_all False (Plus Space) []
              (replace_all False rx_connector [] (toLowerCase (trim t)))) = None"
proof -
  have 1: ?thesis if "occurs [''new'', ''game''] t"
    by (rule keyword_blocks_uci [OF that solid_keywords(1), of "''game''" "CHR ''m''"])
       (simp_all add: is_file_def is_promotion_def)
  have 2: ?thesis if "occurs [''reset''] t"
    by (rule keyword_blocks_uci [OF that solid_keywords(2), of "''reset''" "CHR ''s''"])
       (simp_all add: is_file_def is_promotion_def)
  have 3: ?thesis if "occurs [''undo''] t"
    by (rule keyword_blocks_uci [OF that solid_keywords(3), of "''undo''" "CHR ''u''"])
       (simp_all add: is_file_def is_promotion_def)
  have 4: ?thesis if "occurs [''take'', ''back''] t"
    by (rule keyword_blocks_uci [OF that solid_keywords(4), of "''take''" "CHR ''k''"])
       (simp_all add: is_file_def is_promotion_def)
  show ?thesis using assms 1 2 3 4 by blast
qed

text \<open>
  C4, as the claim states it, fails: the keyword patterns have no word boundary, so a
  keyword inside a longer word is found. "preset" holds "reset" and gives \<open>NewGame\<close>,
  "rundown" holds "undo" and gives \<open>Undo\<close>.
\<close>

theorem lifecycle_substring_counterexample:
  "parseVoiceCommand ''preset'' = Some NewGame \<and> parseVoiceCommand ''rundown'' = Some Undo"
  by code_simp

text \<open>
  C4, amended. The parser returns \<open>NewGame\<close> exactly when the text holds, anywhere and
  in any letter case, also inside a longer word, "new" and "game" with any amount of white
  space (also none) between them, or "reset"; it returns \<open>Undo\<close> exactly when it holds
  none of these and holds, in the same sense, "undo", or "take" and "back". The compact
  pattern never comes first on such a text.
\<close>

theorem lifecycle_keywords_anywhere:
  "(parseVoiceCommand t = Some NewGame
      \<longleftrightarrow> occurs [''new'', ''game''] t \<or> occurs [''reset''] t)
   \<and> (parseVoiceCommand t = Some Undo
      \<longleftrightarrow> \<not> (occurs [''new'', ''game''] t \<or> occurs [''reset''] t)
          \<and> (occurs [''undo''] t \<or> occurs [''take'', ''back''] t))"
proof (cases "rx_exec_anchored False rx_uci
           (replace_all False (Plus Space) []
              (replace_all False rx_connector [] (toLowerCase (trim t))))")
  case (Some m)
  then have none: "\<not> (occurs [''new'', ''game''] t \<or> occurs [''reset''] t
           \<or> occurs [''undo''] t \<or> occurs [''take'', ''back''] t)"
    using lifecycle_blocks_uci [of t] by auto
  have "parseVoiceCommand t = Some (Move (group_text 1 m) (group_text 2 m))"
    using Some by (simp add: parseVoiceCommand_def Let_def)
  then show ?thesis using none by simp
next
  case None
  have later: "(case simple_move (trim t) of Some c \<Rightarrow> Some c | None \<Rightarrow> token_move (trim t))
                 \<noteq> Some NewGame
               \<and> (case simple_move (trim t) of Some c \<Rightarrow> Some c | None \<Rightarrow> token_move (trim t))
                 \<noteq> Some Undo"
    using simple_move_Some [of "trim t"] token_move_Some [of "trim t"]
    by (auto split: option.splits)
  show ?thesis
    using None later
    by (simp add: parseVoiceCommand_def Let_def test_newgame test_undo)
qed

theorem lifecycle_keywords_anywhere_witness:
  "parseVoiceCommand ''preset'' = Some NewGame \<and> occurs [''reset''] ''preset''
   \<and> parseVoiceCommand ''rundown'' = Some Undo \<and> occurs [''undo''] ''rundown''
   \<and> \<not> occurs [''new'', ''game''] ''rundown'' \<and> \<not> occurs [''reset''] ''rundown''"
proof -
  have 1: "occurs [''reset''] ''preset''" by code_simp
  have 2: "occurs [''undo''] ''rundown''" by code_simp
  have 3: "\<not> occurs [''new'', ''game''] ''rundown''" by code_simp
  have 4: "\<not> occurs [''reset''] ''rundown''" by code_simp
  show ?thesis
    using 1 2 3 4 lifecycle_keywords_anywhere [of "''preset''"]
      lifecycle_keywords_anywhere [of "''rundown''"]
    by simp
qed

section \<open>The "move word word" form\<close>

text \<open>
  C3 says that "move e two e four", and likewise "move e two e for", parses to the move
  from e2 to e4. The parser returns no command for either: the normalizer does join a file
  letter and a rank word across white space and reads "for" as rank 4, but the token step
  hands it the white-space separated tokens one by one, so the first token after "move" is
  the bare file letter, which is no square.
\<close>

theorem move_spaced_rank_words_not_parsed:
  "parseVoiceCommand ''move e two e four'' = None
   \<and> parseVoiceCommand ''move e two e for'' = None
   \<and> normalizeSquare ''e two'' = Some ''e2''
   \<and> normalizeSquare ''e four'' = Some ''e4''
   \<and> normalizeSquare ''e for'' = Some ''e4''
   \<and> normalizeSquare ''e'' = None"
  by code_simp

section \<open>A move after a leading word\<close>

lemma file_facts:
  assumes "is_file f"
  shows "lower_char f = f" "\<not> is_space f" "\<not> is_rank f" "\<not> is_digit f"
    "f \<noteq> CHR ''t''" "f \<noteq> CHR ''w''" "f \<noteq> CHR ''o''"
  using assms
  by (auto simp: is_file_code is_space_code is_rank_code is_digit_code lower_char_code Let_def
        char_eq_code [of f] char_eq_code [of "lower_char f"] simp del: of_char_eq_iff)

lemma rank_facts:
  assumes "is_rank r"
  shows "lower_char r = r" "\<not> is_space r" "\<not> is_file r" "is_digit r"
    "r \<noteq> CHR ''t''" "r \<noteq> CHR ''w''" "r \<noteq> CHR ''o''" "\<not> is_file (lower_char r)"
  using assms
  by (auto simp: is_file_code is_space_code is_rank_code is_digit_code lower_char_code Let_def
        char_eq_code [of r] char_eq_code [of "lower_char r"] simp del: of_char_eq_iff)

lemma square_token:
  "rmatch True (Seq (Class [(CHR ''a'', CHR ''h''), (CHR ''A'', CHR ''H'')])
                  (Seq (Star Space) (Class [(CHR ''1'', CHR ''8'')]))) (s, caps) =
     (case s of
        [] \<Rightarrow> []
      | c # s' \<Rightarrow>
          if is_file (lower_char c)
          then (case dropWhile is_space s' of
                  [] \<Rightarrow> []
                | d # s'' \<Rightarrow> if is_rank d then [(s'', caps)] else [])
          else [])"
proof -
  have fail: "rmatch True (Class [(CHR ''1'', CHR ''8'')]) (c # s', caps') = []"
    if "is_space c" for c s' caps'
    using that rank_facts(2) [of c] by (auto simp: class_Cons class_rank)
  show ?thesis
    by (cases s)
       (simp_all add: rmatch.simps(4) [of True "Class rs" for rs] rmatch.simps(2) class_file_ci
          class_rank seq_star_space [of True "Class [(CHR ''1'', CHR ''8'')]", OF fail]
          cong: list.case_cong)
qed

lemma strict_square:
  assumes "is_file f" "is_rank r"
  shows "normalizeSquare [f, r] = Some [f, r]"
proof -
  have "trim [f, r] = [f, r]"
    using file_facts(2) [OF assms(1)] rank_facts(2) [OF assms(2)] by (simp add: trim_def)
  moreover have "rx_exec_anchored False rx_square [f, r] \<noteq> None"
    using assms file_facts(1) [OF assms(1)]
    by (simp add: rx_exec_anchored_def rx_square_def rmatch.simps(4) class_Cons class_Nil
          class_file_cs class_rank)
  ultimately show ?thesis
    using file_facts(1,2) [OF assms(1)] rank_facts(1,2) [OF assms(2)]
    by (simp add: normalizeSquare_def strip_spaces toLowerCase_def)
qed

lemma closed_char_facts:
  "canonicalize CHR ''t'' = CHR ''T''" "canonicalize CHR ''w'' = CHR ''W''"
  "canonicalize CHR ''o'' = CHR ''O''" "canonicalize CHR '' '' = CHR '' ''"
  "\<not> is_file (lower_char CHR ''t'')" "\<not> is_file (lower_char CHR '' '')"
  "is_space CHR '' ''" "\<not> is_space CHR ''t''" "\<not> is_space CHR ''o''"
  by code_simp+

lemma square_group:
  assumes "is_file f" "is_rank r"
  shows "rmatch True (Group n (Seq (Class [(CHR ''a'', CHR ''h''), (CHR ''A'', CHR ''H'')])
                  (Seq (Star Space) (Class [(CHR ''1'', CHR ''8'')])))) (f # r # rest, caps)
           = [(rest, (n, [f, r]) # caps)]"
  using assms file_facts(1) [OF assms(1)] rank_facts(2) [OF assms(2)]
  by (simp add: rmatch.simps(9) square_token)

lemma square_group_fails:
  assumes "\<not> is_file (lower_char c)"
  shows "rmatch True (Group n (Seq (Class [(CHR ''a'', CHR ''h''), (CHR ''A'', CHR ''H'')])
                  (Seq (Star Space) (Class [(CHR ''1'', CHR ''8'')])))) (c # rest, caps) = []"
  using assms by (simp add: rmatch.simps(9) square_token)

lemma simple_move_at_squares:
  assumes "is_file f1" "is_rank r1" "is_file f2" "is_rank r2"
  shows "rmatch True rx_simpleMove (f1 # r1 # '' to '' @ [f2, r2], []) =
           [([], [(3, [f2, r2]), (2, ''to''), (1, [f1, r1])])]"
  unfolding rx_simpleMove_def
  using file_facts(2) [OF assms(3)]
  by (simp add: rmatch.simps(4) [of True "Group n r" for n r] rmatch.simps(4) [of True "Star Space"]
        rmatch.simps(4) [of True "Opt r" for r]
        rmatch.simps(5,6) rmatch.simps(9) [of True 2] lit_simps char_eq_def
        square_group [OF assms(1,2)] square_group [OF assms(3,4)] square_group_fails
        star_space_Cons star_space_Nil closed_char_facts)

lemma dropWhile_append_head:
  assumes "\<not> P f" "dropWhile P (x @ f # y) = d # rest"
  shows "d \<in> set x \<or> d = f"
  using assms by (induction x) (auto split: if_splits)

lemma simple_move_not_before:
  assumes "\<forall>d\<in>set x. \<not> is_rank d" "\<not> is_rank f" "\<not> is_space f"
  shows "rmatch True rx_simpleMove (c # x @ f # y, []) = []"
proof -
  have "rmatch True (Group 1 (Seq (Class [(CHR ''a'', CHR ''h''), (CHR ''A'', CHR ''H'')])
                  (Seq (Star Space) (Class [(CHR ''1'', CHR ''8'')])))) (c # x @ f # y, []) = []"
    using assms dropWhile_append_head [of is_space f x y]
    by (auto simp: rmatch.simps(9) square_token split: list.splits)
  then show ?thesis
    by (simp add: rx_simpleMove_def rmatch.simps(4) [of True "Group n r" for n r])
qed

lemma exec_simple_move_skips:
  assumes "\<forall>d\<in>set v. \<not> is_rank d" "\<not> is_rank f" "\<not> is_space f"
  shows "rx_exec True rx_simpleMove (v @ f # y) = rx_exec True rx_simpleMove (f # y)"
  using assms(1)
proof (induction v)
  case Nil
  show ?case by simp
next
  case (Cons c v)
  have "rmatch True rx_simpleMove (c # v @ f # y, []) = []"
    by (rule simple_move_not_before) (use Cons assms in auto)
  then show ?case using Cons by simp
qed

lemma simple_move_after_word:
  assumes "is_file f1" "is_rank r1" "is_file f2" "is_rank r2"
    and "\<forall>d\<in>set v. \<not> is_rank d"
  shows "simple_move (v @ f1 # r1 # '' to '' @ [f2, r2]) = Some (Move [f1, r1] [f2, r2])"
proof -
  have "rx_exec True rx_simpleMove (v @ f1 # r1 # '' to '' @ [f2, r2])
          = rx_exec True rx_simpleMove (f1 # r1 # '' to '' @ [f2, r2])"
    by (rule exec_simple_move_skips [OF assms(5) file_facts(3,2) [OF assms(1)]])
  also have "\<dots> = Some ([], [(3, [f2, r2]), (2, ''to''), (1, [f1, r1])])"
    using simple_move_at_squares [OF assms(1-4)] by simp
  finally show ?thesis
    by (simp add: simple_move_def group_text_def move_of_def
          strict_square [OF assms(1,2)] strict_square [OF assms(3,4)])
qed

lemma starts_with_before_space:
  assumes "\<forall>p\<in>set kw. \<not> is_space (canonicalize p)" "is_space c"
  shows "starts_with kw (x @ c # y) = starts_with kw x"
  using assms
proof (induction kw x rule: starts_with.induct)
  case (1 s)
  show ?case by simp
next
  case (2 p ps)
  then show ?case using starts_with_space [of c p ps y] by simp
next
  case (3 p ps a s)
  then show ?case by simp
qed

lemma dropWhile_before_space:
  assumes "is_space c"
  shows "(dropWhile is_space x = [] \<and> dropWhile is_space (x @ c # y) = dropWhile is_space y)
         \<or> dropWhile is_space (x @ c # y) = dropWhile is_space x @ c # y"
  using assms by (induction x) auto

lemma phrase_at_Nil: "solid (kw # kws) \<Longrightarrow> \<not> phrase_at (kw # kws) []"
  by (cases kw; cases kws) (auto simp: solid_def)

lemma phrase_at_before_space:
  assumes "solid kws" "is_space c"
    and "\<forall>k\<in>set (tl kws). \<not> starts_with k (dropWhile is_space y)"
  shows "phrase_at kws (x @ c # y) = phrase_at kws x"
  using assms(1,3)
proof (induction kws x rule: phrase_at.induct)
  case (1 s)
  show ?case by simp
next
  case (2 kw s)
  then show ?case using starts_with_before_space [OF _ assms(2)] by (simp add: solid_def)
next
  case (3 kw v va s)
  have kw: "\<forall>p\<in>set kw. \<not> is_space (canonicalize p)" and rest: "solid (v # va)"
    using 3(2) by (auto simp: solid_def)
  have tl: "\<forall>k\<in>set (tl (v # va)). \<not> starts_with k (dropWhile is_space y)"
    and v: "\<not> starts_with v (dropWhile is_space y)"
    using 3(3) by auto
  have sw: "starts_with kw (s @ c # y) = starts_with kw s"
    by (rule starts_with_before_space [OF kw assms(2)])
  show ?case
  proof (cases "starts_with kw s")
    case False
    then show ?thesis using sw by simp
  next
    case True
    then have len: "length kw \<le> length s" by (rule starts_with_length)
    let ?x = "drop (length kw) s"
    have d: "drop (length kw) (s @ c # y) = ?x @ c # y" using len by simp
    have nov: "\<not> phrase_at (v # va) (dropWhile is_space y)"
      using v by (cases va) auto
    have "phrase_at (v # va) (dropWhile is_space (?x @ c # y))
            = phrase_at (v # va) (dropWhile is_space ?x)"
      using dropWhile_before_space [OF assms(2), of ?x y]
    proof (elim disjE conjE)
      assume a: "dropWhile is_space ?x = []"
        and b: "dropWhile is_space (?x @ c # y) = dropWhile is_space y"
      show ?thesis
        unfolding a b using nov phrase_at_Nil [OF rest] by simp
    next
      assume b: "dropWhile is_space (?x @ c # y) = dropWhile is_space ?x @ c # y"
      show ?thesis
        unfolding b by (rule 3(1) [OF rest tl])
    qed
    then show ?thesis using True sw d by simp
  qed
qed

lemma occurs_before_space:
  assumes "solid (kw # kws)" "is_space c"
    and "\<forall>k\<in>set kws. \<not> starts_with k (dropWhile is_space y)"
  shows "occurs (kw # kws) (w @ c # y) = (occurs (kw # kws) w \<or> occurs (kw # kws) (c # y))"
proof (induction w)
  case Nil
  show ?case using phrase_at_Nil [OF assms(1)] by simp
next
  case (Cons a w)
  have "phrase_at (kw # kws) ((a # w) @ c # y) = phrase_at (kw # kws) (a # w)"
    by (rule phrase_at_before_space [OF assms(1,2)]) (use assms(3) in simp)
  then show ?case using Cons by auto
qed

lemma occurs_before_space_one:
  assumes "solid [kw]" "is_space c"
  shows "occurs [kw] (w @ c # y) = (occurs [kw] w \<or> occurs [kw] (c # y))"
  by (rule occurs_before_space [OF assms]) simp

lemma occurs_before_space_two:
  assumes "solid [kw1, kw2]" "is_space c" "\<not> starts_with kw2 (dropWhile is_space y)"
  shows "occurs [kw1, kw2] (w @ c # y) = (occurs [kw1, kw2] w \<or> occurs [kw1, kw2] (c # y))"
  by (rule occurs_before_space [OF assms(1,2)]) (use assms(3) in simp)

lemma more_closed_char_facts:
  "lower_char CHR '' '' = CHR '' ''" "lower_char CHR ''t'' = CHR ''t''"
  "lower_char CHR ''o'' = CHR ''o''"
  by code_simp+

lemma rank_of_lower: "is_rank (lower_char c) \<Longrightarrow> is_rank c"
  by (auto simp: is_rank_code lower_char_code Let_def split: if_splits)

lemma no_keyword_in_move_text:
  assumes "is_file f1" "is_rank r1" "is_file f2" "is_rank r2"
    and k: "k \<in> set kws" and p: "p \<in> set k"
    and letter: "97 \<le> (of_char p :: nat)" "(of_char p :: nat) \<le> 122"
    and out: "\<not> is_file p" "p \<noteq> CHR ''t''" "p \<noteq> CHR ''o''"
  shows "\<not> occurs kws (CHR '' '' # f1 # r1 # '' to '' @ [f2, r2])"
proof
  assume "occurs kws (CHR '' '' # f1 # r1 # '' to '' @ [f2, r2])"
  then obtain c where c: "c \<in> set (CHR '' '' # f1 # r1 # '' to '' @ [f2, r2])"
    and cp: "canonicalize c = canonicalize p"
    using occurs_mem [OF _ k p] by blast
  have lp: "lower_char c = p" by (rule lower_of_canonical [OF letter cp])
  have "lower_char c = c"
    using c file_facts(1) [OF assms(1)] file_facts(1) [OF assms(3)]
      rank_facts(1) [OF assms(2)] rank_facts(1) [OF assms(4)] more_closed_char_facts
    by auto
  then have "p \<in> set (CHR '' '' # f1 # r1 # '' to '' @ [f2, r2])"
    using c lp by simp
  moreover have "\<not> is_rank p" "p \<noteq> CHR '' ''"
    using letter by (auto simp: is_rank_code char_eq_code [of p] simp del: of_char_eq_iff)
  ultimately show False
    using out assms(1-4) by auto
qed

lemma word_not_at_square:
  assumes "is_file f" "is_rank r"
    and kw: "kw = a # b # rest" and letter: "97 \<le> (of_char b :: nat)" "(of_char b :: nat) \<le> 122"
  shows "\<not> starts_with kw (dropWhile is_space (f # r # y))"
proof
  assume "starts_with kw (dropWhile is_space (f # r # y))"
  then have "canonicalize r = canonicalize b"
    using file_facts(2) [OF assms(1)] kw by simp
  then have "lower_char r = b" by (rule lower_of_canonical [OF letter])
  then have "is_rank b" using rank_facts(1) [OF assms(2)] assms(2) by simp
  then show False using letter by (simp add: is_rank_code)
qed

lemma no_keyword_before_move:
  assumes sq: "is_file f1" "is_rank r1" "is_file f2" "is_rank r2"
  shows "occurs [''new'', ''game''] (w @ CHR '' '' # f1 # r1 # '' to '' @ [f2, r2])
           = occurs [''new'', ''game''] w"
    and "occurs [''reset''] (w @ CHR '' '' # f1 # r1 # '' to '' @ [f2, r2]) = occurs [''reset''] w"
    and "occurs [''undo''] (w @ CHR '' '' # f1 # r1 # '' to '' @ [f2, r2]) = occurs [''undo''] w"
    and "occurs [''take'', ''back''] (w @ CHR '' '' # f1 # r1 # '' to '' @ [f2, r2])
           = occurs [''take'', ''back''] w"
    and "occurs [''castle''] (w @ CHR '' '' # f1 # r1 # '' to '' @ [f2, r2])
           = occurs [''castle''] w"
    and "occurs [''castling''] (w @ CHR '' '' # f1 # r1 # '' to '' @ [f2, r2])
           = occurs [''castling''] w"
proof -
  have sp: "is_space CHR '' ''" by (rule closed_char_facts)
  have gm: "\<not> starts_with ''game'' (dropWhile is_space (f1 # r1 # '' to '' @ [f2, r2]))"
    by (rule word_not_at_square [OF sq(1,2), of _ "CHR ''g''" "CHR ''a''" "''me''"]) simp_all
  have bk: "\<not> starts_with ''back'' (dropWhile is_space (f1 # r1 # '' to '' @ [f2, r2]))"
    by (rule word_not_at_square [OF sq(1,2), of _ "CHR ''b''" "CHR ''a''" "''ck''"]) simp_all
  have 1: "\<not> occurs [''new'', ''game''] (CHR '' '' # f1 # r1 # '' to '' @ [f2, r2])"
    by (rule no_keyword_in_move_text [OF sq, of "''new''" _ "CHR ''n''"])
       (simp_all add: is_file_def)
  have 2: "\<not> occurs [''reset''] (CHR '' '' # f1 # r1 # '' to '' @ [f2, r2])"
    by (rule no_keyword_in_move_text [OF sq, of "''reset''" _ "CHR ''s''"])
       (simp_all add: is_file_def)
  have 3: "\<not> occurs [''undo''] (CHR '' '' # f1 # r1 # '' to '' @ [f2, r2])"
    by (rule no_keyword_in_move_text [OF sq, of "''undo''" _ "CHR ''u''"])
       (simp_all add: is_file_def)
  have 4: "\<not> occurs [''take'', ''back''] (CHR '' '' # f1 # r1 # '' to '' @ [f2, r2])"
    by (rule no_keyword_in_move_text [OF sq, of "''take''" _ "CHR ''k''"])
       (simp_all add: is_file_def)
  have 5: "\<not> occurs [''castle''] (CHR '' '' # f1 # r1 # '' to '' @ [f2, r2])"
    by (rule no_keyword_in_move_text [OF sq, of "''castle''" _ "CHR ''s''"])
       (simp_all add: is_file_def)
  have 6: "\<not> occurs [''castling''] (CHR '' '' # f1 # r1 # '' to '' @ [f2, r2])"
    by (rule no_keyword_in_move_text [OF sq, of "''castling''" _ "CHR ''s''"])
       (simp_all add: is_file_def)
  show "occurs [''new'', ''game''] (w @ CHR '' '' # f1 # r1 # '' to '' @ [f2, r2])
           = occurs [''new'', ''game''] w"
    using occurs_before_space_two [OF solid_keywords(1) sp gm, of w] 1 by blast
  show "occurs [''reset''] (w @ CHR '' '' # f1 # r1 # '' to '' @ [f2, r2]) = occurs [''reset''] w"
    using occurs_before_space_one [OF solid_keywords(2) sp, of w] 2 by blast
  show "occurs [''undo''] (w @ CHR '' '' # f1 # r1 # '' to '' @ [f2, r2]) = occurs [''undo''] w"
    using occurs_before_space_one [OF solid_keywords(3) sp, of w] 3 by blast
  show "occurs [''take'', ''back''] (w @ CHR '' '' # f1 # r1 # '' to '' @ [f2, r2])
           = occurs [''take'', ''back''] w"
    using occurs_before_space_two [OF solid_keywords(4) sp bk, of w] 4 by blast
  show "occurs [''castle''] (w @ CHR '' '' # f1 # r1 # '' to '' @ [f2, r2])
           = occurs [''castle''] w"
    using occurs_before_space_one [OF solid_keywords(5) sp, of w] 5 by blast
  show "occurs [''castling''] (w @ CHR '' '' # f1 # r1 # '' to '' @ [f2, r2])
           = occurs [''castling''] w"
    using occurs_before_space_one [OF solid_keywords(6) sp, of w] 6 by blast
qed

lemma dropWhile_append_keep:
  "\<not> P f \<Longrightarrow> dropWhile P (xs @ f # y) = dropWhile P xs @ f # y"
  by (induction xs) auto

lemma trim_move_text:
  assumes "is_file f1" "is_rank r2"
  shows "trim (w @ CHR '' '' # f1 # r1 # '' to '' @ [f2, r2])
           = dropWhile is_space (w @ '' '') @ f1 # r1 # '' to '' @ [f2, r2]"
proof -
  have "dropWhile is_space (w @ CHR '' '' # f1 # r1 # '' to '' @ [f2, r2])
          = dropWhile is_space (w @ '' '') @ f1 # r1 # '' to '' @ [f2, r2]"
    using dropWhile_append_keep [of is_space f1 "w @ '' ''" "r1 # '' to '' @ [f2, r2]"]
      file_facts(2) [OF assms(1)] by simp
  then show ?thesis
    using rank_facts(2) [OF assms(2)] by (simp add: trim_def)
qed

lemma uci_after_word:
  assumes sq: "is_file f1" "is_rank r1" "is_file f2" "is_rank r2"
    and v: "\<forall>d\<in>set v. \<not> is_rank d"
    and m: "rx_exec_anchored False rx_uci
              (replace_all False (Plus Space) []
                 (replace_all False rx_connector []
                    (toLowerCase (v @ f1 # r1 # '' to '' @ [f2, r2])))) = Some m"
  shows "group_text 1 m = [f1, r1] \<and> group_text 2 m = [f2, r2]"
proof -
  let ?z = "filter (\<lambda>c. \<not> is_space c) (replace_all False rx_connector [] (toLowerCase v))"
  have low: "toLowerCase (v @ f1 # r1 # '' to '' @ [f2, r2])
               = toLowerCase v @ f1 # r1 # '' to '' @ [f2, r2]"
    using file_facts(1) [OF sq(1)] file_facts(1) [OF sq(3)]
      rank_facts(1) [OF sq(2)] rank_facts(1) [OF sq(4)] more_closed_char_facts
    by (simp add: toLowerCase_def)
  have tail: "replace_all False rx_connector [] (r1 # '' to '' @ [f2, r2])
                = [r1, CHR '' '', CHR '' '', f2, r2]"
    using rank_facts(5) [OF sq(2)] rank_facts(5) [OF sq(4)] file_facts(5) [OF sq(3)]
    by (simp add: strip_connectors_simps)
  have "replace_all False rx_connector [] (toLowerCase v @ f1 # r1 # '' to '' @ [f2, r2])
          = replace_all False rx_connector [] (toLowerCase v)
            @ f1 # replace_all False rx_connector [] (r1 # '' to '' @ [f2, r2])"
    by (rule strip_connectors_append [OF file_facts(5,6,7) [OF sq(1)]])
  then have clean: "replace_all False (Plus Space) []
                 (replace_all False rx_connector []
                    (toLowerCase (v @ f1 # r1 # '' to '' @ [f2, r2]))) = ?z @ [f1, r1, f2, r2]"
    using file_facts(2) [OF sq(1)] file_facts(2) [OF sq(3)]
      rank_facts(2) [OF sq(2)] rank_facts(2) [OF sq(4)] closed_char_facts(7)
    by (simp only: low tail strip_spaces) simp
  have "set ?z \<subseteq> lower_char ` set v"
    using strip_connectors_subset [of "toLowerCase v"] by (auto simp: toLowerCase_def)
  then have z: "\<forall>d\<in>set ?z. \<not> is_rank d"
    using v rank_of_lower by blast
  obtain a b c d where abcd: "is_rank b"
    and shape: "?z @ [f1, r1, f2, r2] = [a, b, c, d]
                \<or> (\<exists>p. is_promotion p \<and> ?z @ [f1, r1, f2, r2] = [a, b, c, d, p])"
    and g: "group_text 1 m = [a, b]" "group_text 2 m = [c, d]"
    using uci_anchored_Some [OF m [unfolded clean]] by blast
  show ?thesis
  proof (cases ?z)
    case Nil
    then show ?thesis using shape g by simp
  next
    case (Cons x z')
    then have "z' = [] \<and> b = f1"
      using shape by (cases z') auto
    then show ?thesis using abcd file_facts(3) [OF sq(1)] by simp
  qed
qed

text \<open>
  C9. The "square to square" step finds the move anywhere in the transcript. Take any
  text \<open>w\<close> without a digit in which none of the keywords "new game", "reset", "undo",
  "take back", "castle", "castling" occurs (anywhere in \<open>w\<close>, in any letter case, the
  two-word keywords with any or no white space between the words), and any two squares
  \<open>f1 r1\<close> and \<open>f2 r2\<close>. Then the transcript made of \<open>w\<close>, a space, the first square,
  " to " and the second square parses to the move from the first square to the second,
  whatever \<open>w\<close> is.
\<close>

theorem square_to_square_after_word:
  assumes sq: "is_file f1" "is_rank r1" "is_file f2" "is_rank r2"
    and nodigit: "\<forall>c\<in>set w. \<not> is_digit c"
    and nokw: "\<not> occurs [''new'', ''game''] w" "\<not> occurs [''reset''] w"
      "\<not> occurs [''undo''] w" "\<not> occurs [''take'', ''back''] w"
      "\<not> occurs [''castle''] w" "\<not> occurs [''castling''] w"
  shows "parseVoiceCommand (w @ '' '' @ [f1, r1] @ '' to '' @ [f2, r2])
           = Some (Move [f1, r1] [f2, r2])"
proof -
  let ?S = "f1 # r1 # '' to '' @ [f2, r2]"
  let ?T = "w @ CHR '' '' # ?S"
  let ?v = "dropWhile is_space (w @ '' '')"
  have T: "w @ '' '' @ [f1, r1] @ '' to '' @ [f2, r2] = ?T" by simp
  have trim: "trim ?T = ?v @ ?S"
    by (rule trim_move_text [OF sq(1,4)])
  have v: "\<forall>d\<in>set ?v. \<not> is_rank d"
  proof
    fix d
    assume "d \<in> set ?v"
    then have "d \<in> set (w @ '' '')" by (rule set_dropWhileD)
    then have "d \<in> set w \<or> d = CHR '' ''" by auto
    moreover have "\<not> is_rank CHR '' ''" by (simp add: is_rank_def)
    moreover have "\<not> is_rank d" if "d \<in> set w"
      using that nodigit by (auto simp: is_rank_code is_digit_code)
    ultimately show "\<not> is_rank d" by blast
  qed
  have t1: "\<not> rx_test True rx_newgame (trim ?T)"
    unfolding test_newgame no_keyword_before_move [OF sq] using nokw by simp
  have t2: "\<not> rx_test True rx_undo (trim ?T)"
    unfolding test_undo no_keyword_before_move [OF sq] using nokw by simp
  have t3: "\<not> rx_test True rx_castle (trim ?T)"
    unfolding test_castle no_keyword_before_move [OF sq] using nokw by simp
  have sm: "simple_move (trim ?T) = Some (Move [f1, r1] [f2, r2])"
    unfolding trim by (rule simple_move_after_word [OF sq v])
  show ?thesis
  proof (cases "rx_exec_anchored False rx_uci
              (replace_all False (Plus Space) []
                 (replace_all False rx_connector [] (toLowerCase (trim ?T))))")
    case None
    then show ?thesis
      unfolding T using t1 t2 t3 sm by (simp add: parseVoiceCommand_def Let_def)
  next
    case (Some m)
    then have "group_text 1 m = [f1, r1] \<and> group_text 2 m = [f2, r2]"
      unfolding trim by (rule uci_after_word [OF sq v])
    then show ?thesis
      unfolding T using Some by (simp add: parseVoiceCommand_def Let_def)
  qed
qed

theorem square_to_square_after_word_witness:
  "is_file CHR ''g'' \<and> is_rank CHR ''1'' \<and> is_file CHR ''f'' \<and> is_rank CHR ''3''
   \<and> filter is_digit ''knight'' = []
   \<and> \<not> occurs [''new'', ''game''] ''knight'' \<and> \<not> occurs [''reset''] ''knight''
   \<and> \<not> occurs [''undo''] ''knight'' \<and> \<not> occurs [''take'', ''back''] ''knight''
   \<and> \<not> occurs [''castle''] ''knight'' \<and> \<not> occurs [''castling''] ''knight''
   \<and> parseVoiceCommand ''knight g1 to f3'' = Some (Move ''g1'' ''f3'')"
proof -
  have sq: "is_file CHR ''g''" "is_rank CHR ''1''" "is_file CHR ''f''" "is_rank CHR ''3''"
    by (simp_all add: is_file_def is_rank_def)
  have nodigit: "\<forall>c\<in>set ''knight''. \<not> is_digit c"
    by (simp add: is_digit_def)
  have nokw: "\<not> occurs [''new'', ''game''] ''knight''" "\<not> occurs [''reset''] ''knight''"
      "\<not> occurs [''undo''] ''knight''" "\<not> occurs [''take'', ''back''] ''knight''"
      "\<not> occurs [''castle''] ''knight''" "\<not> occurs [''castling''] ''knight''"
    by code_simp+
  have "filter is_digit ''knight'' = []"
    by (simp add: is_digit_def)
  then show ?thesis
    using sq nokw square_to_square_after_word [OF sq nodigit nokw]
    by simp
qed

section \<open>Keyword occurrence as containment\<close>

text \<open>
  The words in which the keyword properties are stated, against plain containment: a
  one-word keyword occurs in a text when the text, letter case aside, contains it; a two-word
  keyword when the text contains its words with only white space between them.
\<close>

lemma starts_with_iff:
  "starts_with kw s \<longleftrightarrow> (\<exists>v. map canonicalize s = map canonicalize kw @ v)"
  by (induction kw s rule: starts_with.induct) auto

lemma occurs_one_iff:
  "occurs [kw] t \<longleftrightarrow> (\<exists>u v. map canonicalize t = u @ map canonicalize kw @ v)"
proof (induction t)
  case Nil
  show ?case by (cases kw) auto
next
  case (Cons a t)
  have "(\<exists>u v. map canonicalize (a # t) = u @ map canonicalize kw @ v)
          \<longleftrightarrow> (\<exists>v. map canonicalize (a # t) = map canonicalize kw @ v)
              \<or> (\<exists>u v. map canonicalize t = u @ map canonicalize kw @ v)"
  proof
    assume "\<exists>u v. map canonicalize (a # t) = u @ map canonicalize kw @ v"
    then obtain u v where uv: "map canonicalize (a # t) = u @ map canonicalize kw @ v" by blast
    show "(\<exists>v. map canonicalize (a # t) = map canonicalize kw @ v)
              \<or> (\<exists>u v. map canonicalize t = u @ map canonicalize kw @ v)"
    proof (cases u)
      case Nil
      then show ?thesis using uv by auto
    next
      case (Cons b u')
      then have "map canonicalize t = u' @ map canonicalize kw @ v" using uv by simp
      then show ?thesis by blast
    qed
  next
    assume "(\<exists>v. map canonicalize (a # t) = map canonicalize kw @ v)
              \<or> (\<exists>u v. map canonicalize t = u @ map canonicalize kw @ v)"
    then show "\<exists>u v. map canonicalize (a # t) = u @ map canonicalize kw @ v"
    proof
      assume "\<exists>v. map canonicalize (a # t) = map canonicalize kw @ v"
      then obtain v where "map canonicalize (a # t) = [] @ map canonicalize kw @ v" by auto
      then show ?thesis by blast
    next
      assume "\<exists>u v. map canonicalize t = u @ map canonicalize kw @ v"
      then obtain u v where "map canonicalize t = u @ map canonicalize kw @ v" by blast
      then have "map canonicalize (a # t) = (canonicalize a # u) @ map canonicalize kw @ v"
        by simp
      then show ?thesis by blast
    qed
  qed
  then show ?case using Cons starts_with_iff [of kw "a # t"] by simp
qed

lemma is_space_canonicalize: "is_space (canonicalize c) = is_space c"
  by (auto simp: is_space_code canonicalize_code Let_def)

lemma canonicalize_dropWhile:
  "map canonicalize (dropWhile is_space s) = dropWhile is_space (map canonicalize s)"
  by (induction s) (auto simp: is_space_canonicalize)

lemma phrase_at_two_iff:
  assumes "solid [k1, k2]"
  shows "phrase_at [k1, k2] s \<longleftrightarrow>
           (\<exists>sp v. (\<forall>c\<in>set sp. is_space c)
              \<and> map canonicalize s = map canonicalize k1 @ sp @ map canonicalize k2 @ v)"
proof
  assume "phrase_at [k1, k2] s"
  then have 1: "starts_with k1 s"
    and 2: "starts_with k2 (dropWhile is_space (drop (length k1) s))"
    by auto
  let ?s' = "drop (length k1) s"
  obtain v1 where v1: "map canonicalize s = map canonicalize k1 @ v1"
    using 1 starts_with_iff by blast
  then have s': "map canonicalize ?s' = v1"
    by (metis append_eq_conv_conj drop_map length_map)
  obtain v where v: "map canonicalize (dropWhile is_space ?s') = map canonicalize k2 @ v"
    using 2 starts_with_iff by blast
  have "v1 = takeWhile is_space v1 @ dropWhile is_space v1" by simp
  also have "dropWhile is_space v1 = map canonicalize k2 @ v"
    using v s' by (simp add: canonicalize_dropWhile)
  finally have "map canonicalize s
                  = map canonicalize k1 @ takeWhile is_space v1 @ map canonicalize k2 @ v"
    using v1 by simp
  moreover have "\<forall>c\<in>set (takeWhile is_space v1). is_space c"
    by (auto dest: set_takeWhileD)
  ultimately show "\<exists>sp v. (\<forall>c\<in>set sp. is_space c)
              \<and> map canonicalize s = map canonicalize k1 @ sp @ map canonicalize k2 @ v"
    by blast
next
  assume "\<exists>sp v. (\<forall>c\<in>set sp. is_space c)
              \<and> map canonicalize s = map canonicalize k1 @ sp @ map canonicalize k2 @ v"
  then obtain sp v where sp: "\<forall>c\<in>set sp. is_space c"
    and eq: "map canonicalize s = map canonicalize k1 @ sp @ map canonicalize k2 @ v"
    by blast
  obtain p ps where k2: "k2 = p # ps" and p: "\<not> is_space (canonicalize p)"
    using assms by (cases k2) (auto simp: solid_def)
  have 1: "starts_with k1 s"
    using eq starts_with_iff by blast
  let ?s' = "drop (length k1) s"
  have "map canonicalize ?s' = sp @ map canonicalize k2 @ v"
    using eq by (metis append_eq_conv_conj drop_map length_map)
  then have "map canonicalize (dropWhile is_space ?s')
               = dropWhile is_space (sp @ map canonicalize k2 @ v)"
    by (simp add: canonicalize_dropWhile)
  also have "\<dots> = map canonicalize k2 @ v"
    using sp p k2 by (simp add: dropWhile_append)
  finally have "starts_with k2 (dropWhile is_space ?s')"
    using starts_with_iff by blast
  then show "phrase_at [k1, k2] s" using 1 by simp
qed

lemma occurs_two_iff:
  assumes "solid [k1, k2]"
  shows "occurs [k1, k2] t \<longleftrightarrow>
           (\<exists>u sp v. (\<forall>c\<in>set sp. is_space c)
              \<and> map canonicalize t = u @ map canonicalize k1 @ sp @ map canonicalize k2 @ v)"
    (is "?L t \<longleftrightarrow> ?R t")
proof (induction t)
  case Nil
  have "\<not> phrase_at [k1, k2] []" by (rule phrase_at_Nil [OF assms])
  moreover have "k1 \<noteq> []" using assms by (simp add: solid_def)
  ultimately show ?case by simp
next
  case (Cons a t)
  have "?R (a # t) \<longleftrightarrow> phrase_at [k1, k2] (a # t) \<or> ?R t"
  proof
    assume "?R (a # t)"
    then obtain u sp v where sp: "\<forall>c\<in>set sp. is_space c"
      and eq: "map canonicalize (a # t)
                 = u @ map canonicalize k1 @ sp @ map canonicalize k2 @ v"
      by blast
    show "phrase_at [k1, k2] (a # t) \<or> ?R t"
    proof (cases u)
      case Nil
      then have "phrase_at [k1, k2] (a # t)"
        using eq sp phrase_at_two_iff [OF assms, of "a # t"] by auto
      then show ?thesis by simp
    next
      case (Cons b u')
      then have "map canonicalize t = u' @ map canonicalize k1 @ sp @ map canonicalize k2 @ v"
        using eq by simp
      then show ?thesis using sp by blast
    qed
  next
    assume "phrase_at [k1, k2] (a # t) \<or> ?R t"
    then show "?R (a # t)"
    proof
      assume "phrase_at [k1, k2] (a # t)"
      then obtain sp v where "\<forall>c\<in>set sp. is_space c"
        and "map canonicalize (a # t) = [] @ map canonicalize k1 @ sp @ map canonicalize k2 @ v"
        using phrase_at_two_iff [OF assms, of "a # t"] by auto
      then show ?thesis by blast
    next
      assume "?R t"
      then obtain u sp v where "\<forall>c\<in>set sp. is_space c"
        and "map canonicalize t = u @ map canonicalize k1 @ sp @ map canonicalize k2 @ v"
        by blast
      then have "\<forall>c\<in>set sp. is_space c"
        and "map canonicalize (a # t)
               = (canonicalize a # u) @ map canonicalize k1 @ sp @ map canonicalize k2 @ v"
        by simp_all
      then show ?thesis by blast
    qed
  qed
  then show ?case using Cons by simp
qed

section \<open>The compact form with connector words\<close>

lemma space_facts:
  assumes "is_space c"
  shows "lower_char c = c" "c \<noteq> CHR ''t''" "c \<noteq> CHR ''w''" "c \<noteq> CHR ''o''"
  using assms
  by (auto simp: is_space_code lower_char_code Let_def
        char_eq_code [of c] char_eq_code [of "lower_char c"] simp del: of_char_eq_iff)

lemma promotion_facts:
  assumes "is_promotion p"
  shows "lower_char p = p" "\<not> is_space p" "p \<noteq> CHR ''t''" "p \<noteq> CHR ''w''" "p \<noteq> CHR ''o''"
  using assms by (auto simp: is_promotion_def) (code_simp+)

lemma strip_connectors_spaces:
  assumes "\<forall>c\<in>set l. is_space c"
  shows "replace_all False rx_connector [] (l @ s) = l @ replace_all False rx_connector [] s"
  using assms by (induction l) (auto simp: strip_connectors_other space_facts)

lemma clean_trim:
  "filter (\<lambda>c. \<not> is_space c) (replace_all False rx_connector [] (toLowerCase (trim t)))
     = filter (\<lambda>c. \<not> is_space c) (replace_all False rx_connector [] (toLowerCase t))"
proof -
  obtain r where r: "\<forall>c\<in>set r. is_space c" and d: "dropWhile is_space t = trim t @ r"
    using trim_decompose by blast
  let ?l = "takeWhile is_space t"
  have l: "\<forall>c\<in>set ?l. is_space c" by (auto dest: set_takeWhileD)
  have t: "t = ?l @ trim t @ r" using d by (metis takeWhile_dropWhile_id)
  have low: "toLowerCase (?l @ trim t @ r) = ?l @ toLowerCase (trim t) @ r"
    using l r by (simp add: toLowerCase_def space_facts(1) map_idI)
  have tail: "replace_all False rx_connector [] (toLowerCase (trim t) @ r)
                = replace_all False rx_connector [] (toLowerCase (trim t)) @ r"
  proof (cases r)
    case Nil
    then show ?thesis by simp
  next
    case (Cons c r')
    then have c: "is_space c" and r': "\<forall>c\<in>set r'. is_space c" using r by auto
    have "replace_all False rx_connector [] (toLowerCase (trim t) @ c # r')
            = replace_all False rx_connector [] (toLowerCase (trim t))
              @ c # replace_all False rx_connector [] r'"
      by (rule strip_connectors_append [OF space_facts(2,3,4) [OF c]])
    moreover have "replace_all False rx_connector [] r' = r'"
      using strip_connectors_spaces [OF r', of "[]"] by (simp add: strip_connectors_Nil)
    ultimately show ?thesis using Cons by simp
  qed
  have "replace_all False rx_connector [] (toLowerCase t)
          = ?l @ replace_all False rx_connector [] (toLowerCase (trim t)) @ r"
    using t low tail strip_connectors_spaces [OF l] by metis
  then show ?thesis using l r by (simp add: filter_empty_conv [THEN iffD2])
qed

lemma lower_connector_tokens:
  assumes "list_all connector_token g"
  shows "toLowerCase (concat g) = concat g"
  using assms
proof (induction g)
  case Nil
  show ?case by (simp add: toLowerCase_def)
next
  case (Cons tok g)
  have w: "lower_char CHR ''w'' = CHR ''w''" by code_simp
  have "map lower_char tok = tok"
    using Cons(2) more_closed_char_facts w space_facts(1)
    by (auto simp: connector_token_def split: list.splits)
  then show ?case using Cons by (simp add: toLowerCase_def)
qed

lemma strip_connector_tokens:
  assumes "list_all connector_token g"
  shows "replace_all False rx_connector [] (concat g @ s)
           = filter is_space (concat g) @ replace_all False rx_connector [] s"
  using assms
proof (induction g)
  case Nil
  show ?case by simp
next
  case (Cons tok g)
  then have ih: "replace_all False rx_connector [] (concat g @ s)
           = filter is_space (concat g) @ replace_all False rx_connector [] s"
    by simp
  consider "tok = ''to''" | "tok = ''two''" | c where "tok = [c]" "is_space c"
    using Cons(2) by (auto simp: connector_token_def split: list.splits)
  then show ?case
  proof cases
    case 1
    then show ?thesis using ih closed_char_facts by (simp add: strip_connectors_t)
  next
    case 2
    have "\<not> is_space CHR ''w''" by code_simp
    then show ?thesis using 2 ih closed_char_facts by (simp add: strip_connectors_t)
  next
    case 3
    then show ?thesis using ih space_facts(2) by (simp add: strip_connectors_other)
  qed
qed

lemma clean_compact:
  assumes "is_file f1" "is_rank r1" "is_file f2" "is_rank r2"
    and "list_all connector_token g0" "list_all connector_token g1"
      "list_all connector_token g2" "list_all connector_token g3"
    and rest: "filter (\<lambda>c. \<not> is_space c) (replace_all False rx_connector [] (toLowerCase s)) = e"
  shows "replace_all False (Plus Space) []
           (replace_all False rx_connector []
              (toLowerCase (trim (concat g0 @ f1 # concat g1 @ r1 # concat g2 @ f2 # concat g3
                                   @ r2 # s))))
           = f1 # r1 # f2 # r2 # e"
proof -
  have low: "toLowerCase (concat g0 @ f1 # concat g1 @ r1 # concat g2 @ f2 # concat g3 @ r2 # s)
        = concat g0 @ f1 # concat g1 @ r1 # concat g2 @ f2 # concat g3 @ r2 # toLowerCase s"
    using lower_connector_tokens [OF assms(5)] lower_connector_tokens [OF assms(6)]
      lower_connector_tokens [OF assms(7)] lower_connector_tokens [OF assms(8)]
      file_facts(1) [OF assms(1)] file_facts(1) [OF assms(3)]
      rank_facts(1) [OF assms(2)] rank_facts(1) [OF assms(4)]
    by (simp add: toLowerCase_def)
  have "replace_all False rx_connector []
          (concat g0 @ f1 # concat g1 @ r1 # concat g2 @ f2 # concat g3 @ r2 # toLowerCase s)
        = filter is_space (concat g0) @ f1 # filter is_space (concat g1) @ r1
          # filter is_space (concat g2) @ f2 # filter is_space (concat g3) @ r2
          # replace_all False rx_connector [] (toLowerCase s)"
    using file_facts(5) [OF assms(1)] file_facts(5) [OF assms(3)]
      rank_facts(5) [OF assms(2)] rank_facts(5) [OF assms(4)]
    by (simp only: strip_connector_tokens [OF assms(5)] strip_connector_tokens [OF assms(6)]
          strip_connector_tokens [OF assms(7)] strip_connector_tokens [OF assms(8)]
          strip_connectors_other simp_thms)
  then show ?thesis
    using rest file_facts(2) [OF assms(1)] file_facts(2) [OF assms(3)]
      rank_facts(2) [OF assms(2)] rank_facts(2) [OF assms(4)]
    by (simp add: strip_spaces clean_trim low)
qed

lemma clean_gap:
  assumes "list_all connector_token g"
  shows "filter (\<lambda>c. \<not> is_space c) (replace_all False rx_connector [] (toLowerCase (concat g)))
           = []"
  using strip_connector_tokens [OF assms, of "[]"] lower_connector_tokens [OF assms]
  by (simp add: strip_connectors_Nil)

lemma clean_gap_promotion:
  assumes "list_all connector_token g4" "list_all connector_token g5" "is_promotion p"
  shows "filter (\<lambda>c. \<not> is_space c)
           (replace_all False rx_connector [] (toLowerCase (concat g4 @ p # concat g5))) = [p]"
proof -
  have "toLowerCase (concat g4 @ p # concat g5) = concat g4 @ p # concat g5"
    using lower_connector_tokens [OF assms(1)] lower_connector_tokens [OF assms(2)]
      promotion_facts(1) [OF assms(3)]
    by (simp add: toLowerCase_def)
  moreover have "replace_all False rx_connector [] (concat g4 @ p # concat g5)
                   = filter is_space (concat g4) @ p # filter is_space (concat g5)"
    using strip_connector_tokens [OF assms(1), of "p # concat g5"]
      strip_connector_tokens [OF assms(2), of "[]"] promotion_facts(3) [OF assms(3)]
    by (simp add: strip_connectors_other strip_connectors_Nil)
  ultimately show ?thesis using promotion_facts(2) [OF assms(3)] by simp
qed

text \<open>
  With white space and the connector words "to" and "two" in any number and at any place
  between, before and after its characters, a compact move parses to the move between its
  two squares, with or without a promotion letter.
\<close>

lemma compact_with_to_two:
  assumes "is_file f1" "is_rank r1" "is_file f2" "is_rank r2"
    and "list_all connector_token g0" "list_all connector_token g1"
      "list_all connector_token g2" "list_all connector_token g3" "list_all connector_token g4"
  shows "parseVoiceCommand
           (concat g0 @ f1 # concat g1 @ r1 # concat g2 @ f2 # concat g3 @ r2 # concat g4)
           = Some (Move [f1, r1] [f2, r2])"
  using clean_compact [OF assms(1-8) clean_gap [OF assms(9)]] uci_anchored_four [OF assms(1-4)]
  by (simp add: parseVoiceCommand_def Let_def group_text_def)

lemma compact_with_to_two_promotion:
  assumes "is_file f1" "is_rank r1" "is_file f2" "is_rank r2" "is_promotion p"
    and "list_all connector_token g0" "list_all connector_token g1"
      "list_all connector_token g2" "list_all connector_token g3" "list_all connector_token g4"
      "list_all connector_token g5"
  shows "parseVoiceCommand
           (concat g0 @ f1 # concat g1 @ r1 # concat g2 @ f2 # concat g3 @ r2 # concat g4
              @ p # concat g5)
           = Some (Move [f1, r1] [f2, r2])"
  using clean_compact [OF assms(1-4) assms(6-9) clean_gap_promotion [OF assms(10,11,5)]]
    uci_anchored_five [OF assms(1-5)]
  by (simp add: parseVoiceCommand_def Let_def group_text_def)

lemma compact_with_to_two_example:
  "parseVoiceCommand ''a7 to a8 two q'' = Some (Move ''a7'' ''a8'')"
  using compact_with_to_two_promotion [of "CHR ''a''" "CHR ''7''" "CHR ''a''" "CHR ''8''" "CHR ''q''"
     "[]" "[]" "['' '', ''to'', '' '']" "[]" "['' '', ''two'', '' '']" "[]"]
  by (simp add: is_file_def is_rank_def is_promotion_def connector_token_def closed_char_facts)

text \<open>
  C1 says that a compact move with white space or the connector words "to", "two" and "too"
  among its characters parses to the move between its two squares. With "too" the parser
  does not do so: the global replacement tries "to" before "too", so it takes "to" out of
  "too" and leaves an "o"; the compact pattern then does not match, and on the transcripts
  below no later step recovers the move, so no command is returned.
\<close>

theorem compact_with_too_not_parsed:
  "parseVoiceCommand ''e2 too too e4'' = None
   \<and> parseVoiceCommand ''etoo2e4'' = None
   \<and> replace_all False rx_connector [] ''e2 too too e4'' = ''e2 o o e4''"
  by code_simp

section \<open>The squares of a returned move\<close>

lemma strict_square_match:
  "rx_exec_anchored False rx_square s \<noteq> None \<longleftrightarrow>
     (\<exists>c d. s = [c, d] \<and> is_file (lower_char c) \<and> is_rank d)"
proof -
  have "rmatch False rx_square (s, []) =
          (case s of c # d # rest \<Rightarrow> if is_file (lower_char c) \<and> is_rank d then [(rest, [])] else []
           | _ \<Rightarrow> [])"
    by (simp add: rx_square_def rmatch.simps(4) class_Nil class_Cons class_file_cs class_rank
          split: list.splits)
  then show ?thesis
    by (auto simp: rx_exec_anchored_def split: list.splits if_splits)
qed

lemma strict_square_groups_match:
  "rx_exec_anchored False rx_square_groups s \<noteq> None \<longleftrightarrow>
     (\<exists>c d. s = [c, d] \<and> is_file (lower_char c) \<and> is_rank d)"
proof -
  have "rmatch False rx_square_groups (s, []) =
          (case s of c # d # rest \<Rightarrow>
             if is_file (lower_char c) \<and> is_rank d then [(rest, [(2, [d]), (1, [c])])] else []
           | _ \<Rightarrow> [])"
    by (simp add: rx_square_groups_def rmatch.simps(4,9) class_Nil class_Cons class_file_cs
          class_rank split: list.splits)
  then show ?thesis
    by (auto simp: rx_exec_anchored_def split: list.splits if_splits)
qed

lemma fileMap_lookup:
  assumes "truthy (get_property fileMap (case cleaned of [] \<Rightarrow> ''undefined'' | c # _ \<Rightarrow> [c]))"
  shows "\<exists>f rest. cleaned = f # rest \<and> is_file f
           \<and> to_text (get_property fileMap (case cleaned of [] \<Rightarrow> ''undefined'' | c # _ \<Rightarrow> [c]))
               = [f]"
proof (cases cleaned)
  case Nil
  have "get_property fileMap ''undefined'' = None" by code_simp
  then show ?thesis using assms Nil by simp
next
  case (Cons c rest)
  show ?thesis
  proof (cases "map_of fileMap [c]")
    case (Some v)
    then have "([c], v) \<in> set fileMap" by (rule map_of_SomeD)
    then have "v = [c] \<and> is_file c" by (auto simp: fileMap_def is_file_def)
    then show ?thesis using Some Cons by (simp add: get_property_def)
  next
    case None
    have "map_of object_prototype [c] = None"
      by (simp add: object_prototype_def)
    then show ?thesis using assms None Cons by (simp add: get_property_def)
  qed
qed

lemma rankMap_lookup:
  assumes "truthy (get_property rankMap rankWord)"
  shows "(\<exists>d. is_rank d \<and> to_text (get_property rankMap rankWord) = [d])
         \<or> (\<exists>kv\<in>set object_prototype. to_text (get_property rankMap rankWord)
                                           = to_text (Some (snd kv)))"
proof (cases "map_of rankMap rankWord")
  case (Some v)
  then have "(rankWord, v) \<in> set rankMap" by (rule map_of_SomeD)
  then have "\<exists>d. is_rank d \<and> v = [d]" by (auto simp: rankMap_def is_rank_def)
  then show ?thesis using Some by (auto simp: get_property_def)
next
  case None
  then obtain v where v: "map_of object_prototype rankWord = Some v"
    using assms by (cases "map_of object_prototype rankWord") (auto simp: get_property_def)
  then have "(rankWord, v) \<in> set object_prototype" by (rule map_of_SomeD)
  then show ?thesis using None v by (force simp: get_property_def)
qed

lemma normalizeSquare_Some:
  assumes "normalizeSquare x = Some y"
  shows "canonical_square y \<or> leaked_square y"
proof -
  let ?cleaned = "replace_all False (Plus Space) [] (trim x)"
  show ?thesis
  proof (cases "rx_exec_anchored False rx_square ?cleaned \<noteq> None
                \<or> rx_exec_anchored False rx_square_groups ?cleaned \<noteq> None")
    case True
    then obtain c d where cd: "?cleaned = [c, d]" "is_file (lower_char c)" "is_rank d"
      using strict_square_match strict_square_groups_match by blast
    have "y = toLowerCase ?cleaned"
      using assms True by (auto simp: normalizeSquare_def Let_def split: if_splits)
    then have "y = [lower_char c, d]"
      using cd rank_facts(1) [OF cd(3)] by (simp add: toLowerCase_def)
    then show ?thesis using cd by (simp add: canonical_square_def)
  next
    case False
    let ?f = "get_property fileMap (case ?cleaned of [] \<Rightarrow> ''undefined'' | c # _ \<Rightarrow> [c])"
    let ?r = "get_property rankMap (drop 1 ?cleaned)"
    have t: "truthy ?f" "truthy ?r" and y: "y = to_text ?f @ to_text ?r"
      using assms False by (auto simp: normalizeSquare_def Let_def split: if_splits)
    obtain f where f: "is_file f" "to_text ?f = [f]"
      using fileMap_lookup [OF t(1)] by blast
    from rankMap_lookup [OF t(2)] show ?thesis
    proof
      assume "\<exists>d. is_rank d \<and> to_text ?r = [d]"
      then show ?thesis using f y by (auto simp: canonical_square_def)
    next
      assume "\<exists>kv\<in>set object_prototype. to_text ?r = to_text (Some (snd kv))"
      then obtain kv where "kv \<in> set object_prototype" "to_text ?r = to_text (Some (snd kv))"
        by blast
      then have "leaked_square y"
        using f y unfolding leaked_square_def list_ex_iff
        by (auto simp: is_file_def)
      then show ?thesis by simp
    qed
  qed
qed

lemma move_of_Move:
  "move_of x y = Some (Move a b) \<Longrightarrow> x = Some a \<and> y = Some b"
  by (auto simp: move_of_def split: option.splits if_splits)

text \<open>
  Each square of a move that the parser returns is either canonical or a file letter followed
  by the text of an inherited property.
\<close>

lemma move_squares:
  assumes "parseVoiceCommand t = Some (Move a b)"
  shows "(canonical_square a \<or> leaked_square a) \<and> (canonical_square b \<or> leaked_square b)"
proof (cases "rx_exec_anchored False rx_uci
           (replace_all False (Plus Space) []
              (replace_all False rx_connector [] (toLowerCase (trim t))))")
  case (Some m)
  then have "a = group_text 1 m" "b = group_text 2 m"
    using assms by (simp_all add: parseVoiceCommand_def Let_def)
  then show ?thesis
    using uci_anchored_Some [OF Some] by (auto simp: canonical_square_def)
next
  case None
  then have "simple_move (trim t) = Some (Move a b) \<or> token_move (trim t) = Some (Move a b)"
    using assms by (auto simp: parseVoiceCommand_def Let_def split: if_splits option.splits)
  then obtain x y where "move_of (normalizeSquare x) (normalizeSquare y) = Some (Move a b)"
    by (auto simp: simple_move_def token_move_def Let_def split: option.splits if_splits)
  then have "normalizeSquare x = Some a" "normalizeSquare y = Some b"
    using move_of_Move by blast+
  then show ?thesis using normalizeSquare_Some by blast
qed

text \<open>
  C10 says that both squares of every returned move are canonical. On a transcript whose
  token after "move" is a file letter followed by the name of a property that every object
  inherits, the parser returns a move whose first square is not: the lookup in the rank table
  finds the inherited property, and the square is the file letter followed by the text of
  that property.
\<close>

theorem move_with_inherited_rank_word:
  "parseVoiceCommand ''move aconstructor e4''
     = Some (Move ''afunction Object() { [native code] }'' ''e4'')
   \<and> \<not> canonical_square ''afunction Object() { [native code] }''
   \<and> parseVoiceCommand ''move a__proto__ e4'' = Some (Move ''a[object Object]'' ''e4'')
   \<and> \<not> canonical_square ''a[object Object]''"
  by code_simp

end
